theory Spec2Isabelle
  imports Main
begin

section \<open>SIL data model\<close>

text \<open>
  The pass of \<^verbatim>\<open>SILMem2Reg.cpp\<close> works on a function in SIL: basic blocks holding
  instructions, values that instructions use, and a dominator tree. Pointers are
  modelled by names: a block by a number, an instruction by its identifier. A null
  \<^verbatim>\<open>SILValue()\<close> or a null pointer is \<open>None\<close>.
\<close>

type_synonym SILBasicBlock = nat
type_synonym InstId = nat
type_synonym VarInfo = nat

datatype SILType = TupleType "SILType list" | NominalType nat

datatype SILValue =
    InstResult InstId
  | SILArgument SILBasicBlock nat
  | SILUndef SILType

datatype LoadOwnershipQualifier = LoadUnqualified | LoadTake | LoadCopy | LoadTrivial

datatype StoreOwnershipQualifier = StoreUnqualified | StoreInit | StoreAssign | StoreTrivial

text \<open>
  \<^verbatim>\<open>struct_element_addr\<close>, \<^verbatim>\<open>tuple_element_addr\<close> and \<^verbatim>\<open>unchecked_addr_cast\<close> are the
  three address projections the pass looks through; they are one constructor told apart
  by the \<^verbatim>\<open>ProjectionKind\<close> that \<^verbatim>\<open>replaceLoad\<close> reads from them. The object projections
  (\<^verbatim>\<open>struct_extract\<close>, \<^verbatim>\<open>tuple_extract\<close>, \<^verbatim>\<open>unchecked_bitwise_cast\<close>) mirror them.
  A store is \<open>StoreInst src dest qualifier\<close>.
\<close>

datatype ProjectionKind = Struct | Tuple | BitwiseCast

datatype SILInstructionKind =
    AllocStackInst SILType
  | LoadInst SILValue LoadOwnershipQualifier
  | StoreInst SILValue SILValue StoreOwnershipQualifier
  | AddrProjectionInst ProjectionKind nat SILValue
  | ObjectProjectionInst ProjectionKind nat SILValue
  | DeallocStackInst SILValue
  | DebugValueAddrInst SILValue VarInfo
  | DebugValueInst SILValue VarInfo
  | DestroyAddrInst SILValue
  | DestroyValueInst SILValue
  | CopyValueInst SILValue
  | BeginBorrowInst SILValue
  | EndBorrowInst SILValue
  | TupleInst SILType "SILValue list"
  | TermInst "(SILBasicBlock \<times> SILValue list) list"
  | OtherInst "SILValue list"

datatype SILInstruction = SILInstruction (instId: InstId) (kind: SILInstructionKind)

datatype error = AssertionFailure | NullDereference | OutOfFuel

text \<open>
  What the pass reads of one entry of a use list: the user instruction
  (\<^verbatim>\<open>UI->getUser()\<close>), the block holding it (\<^verbatim>\<open>getParent()\<close>) and the user's own uses
  (\<^verbatim>\<open>getUses()\<close>). The pass walks a user's own uses only beneath address projections
  (\<^verbatim>\<open>isAddressForLoad\<close>, \<^verbatim>\<open>isDeadAddrProjection\<close>, \<^verbatim>\<open>collectLoads\<close>).
\<close>

datatype Use = Use (getUser: SILInstruction) (getParent: SILBasicBlock) (getUses: "Use list")

section \<open>Capture analysis\<close>

text \<open>
  \<^verbatim>\<open>isAddressForLoad(I, singleBlock, hasGuaranteedOwnership)\<close>. Both reference
  parameters are returned next to the result; a write made before an early
  \<^verbatim>\<open>return false\<close> stays visible to the caller, as in the source.
\<close>

fun isAddressForLoad ::
    "Use \<Rightarrow> SILBasicBlock option \<Rightarrow> bool \<Rightarrow> bool \<times> SILBasicBlock option \<times> bool"
  and isAddressForLoad_uses ::
    "Use list \<Rightarrow> SILBasicBlock option \<Rightarrow> bool \<Rightarrow> bool \<times> SILBasicBlock option \<times> bool"
where
  "isAddressForLoad (Use I p us) singleBlock hasGuaranteedOwnership =
     (case kind I of
        LoadInst _ q \<Rightarrow>
          if hasGuaranteedOwnership \<and> q = LoadTake
          then (False, singleBlock, hasGuaranteedOwnership)
          else (True, singleBlock, hasGuaranteedOwnership)
      | AddrProjectionInst k _ _ \<Rightarrow>
          isAddressForLoad_uses us singleBlock
            (if k = Struct \<or> k = Tuple then True else hasGuaranteedOwnership)
      | _ \<Rightarrow> (False, singleBlock, hasGuaranteedOwnership))"
| "isAddressForLoad_uses [] singleBlock hasGuaranteedOwnership =
     (True, singleBlock, hasGuaranteedOwnership)"
| "isAddressForLoad_uses (II # rest) singleBlock hasGuaranteedOwnership =
     (let sb = (if Some (getParent II) \<noteq> singleBlock then None else singleBlock) in
      case isAddressForLoad II sb hasGuaranteedOwnership of
        (False, sb', g') \<Rightarrow> (False, sb', g')
      | (True, sb', g') \<Rightarrow> isAddressForLoad_uses rest sb' g')"

text \<open>
  The loop of \<^verbatim>\<open>isCaptured\<close> over the uses of the allocation. \<open>loadable\<close> is
  \<^verbatim>\<open>DAI->getOperand()->getType().isLoadable(...)\<close>: the operand of a \<^verbatim>\<open>destroy_addr\<close>
  that uses the allocation is the allocation, so it is a property of the slot's type,
  computed outside this file. The result is \<open>(captured, singleBlock)\<close>.
\<close>

fun isCaptured_loop ::
    "bool \<Rightarrow> InstId \<Rightarrow> Use list \<Rightarrow> SILBasicBlock option \<Rightarrow> bool \<times> SILBasicBlock option"
where
  "isCaptured_loop loadable ASI [] singleBlock = (False, singleBlock)"
| "isCaptured_loop loadable ASI (II # rest) singleBlock =
     (let sb = (if Some (getParent II) \<noteq> singleBlock then None else singleBlock) in
      case isAddressForLoad II sb False of
        (True, sb', _) \<Rightarrow> isCaptured_loop loadable ASI rest sb'
      | (False, sb', _) \<Rightarrow>
          (case kind (getUser II) of
             StoreInst src dest q \<Rightarrow>
               if dest = InstResult ASI then isCaptured_loop loadable ASI rest sb'
               else (True, sb')
           | DeallocStackInst _ \<Rightarrow> isCaptured_loop loadable ASI rest sb'
           | DebugValueAddrInst _ _ \<Rightarrow> isCaptured_loop loadable ASI rest sb'
           | DestroyAddrInst _ \<Rightarrow>
               if loadable then isCaptured_loop loadable ASI rest sb' else (True, sb')
           | _ \<Rightarrow> (True, sb')))"

text \<open>
  \<^verbatim>\<open>isCaptured(ASI, inSingleBlock)\<close>: \<open>asiParent\<close> is \<^verbatim>\<open>ASI->getParent()\<close>. The result is
  \<open>(captured, inSingleBlock)\<close>; \<^verbatim>\<open>inSingleBlock\<close> is written only on the path that
  returns false.
\<close>

definition isCaptured ::
    "bool \<Rightarrow> InstId \<Rightarrow> SILBasicBlock \<Rightarrow> Use list \<Rightarrow> bool \<Rightarrow> bool \<times> bool"
where
  "isCaptured loadable ASI asiParent uses inSingleBlock =
     (case isCaptured_loop loadable ASI uses (Some asiParent) of
        (True, _) \<Rightarrow> (True, inSingleBlock)
      | (False, singleBlock) \<Rightarrow> (False, singleBlock \<noteq> None))"

text \<open>
  The uses the capture analysis visits from one use of the allocation: the use itself
  and, beneath an address projection, the uses of the projection, recursively.
\<close>

fun visitedUses :: "Use \<Rightarrow> Use list" where
  "visitedUses (Use I p us) =
     Use I p us #
       (case kind I of
          AddrProjectionInst _ _ _ \<Rightarrow> concat (map visitedUses us)
        | _ \<Rightarrow> [])"

text \<open>
  \<open>takesThroughField g u\<close>: some load reached from \<open>u\<close> through address projections
  takes its operand, and the chain to it passes a \<^verbatim>\<open>struct_element_addr\<close> or
  \<^verbatim>\<open>tuple_element_addr\<close> (or \<open>g\<close> says one was passed above \<open>u\<close>).
\<close>

fun takesThroughField :: "bool \<Rightarrow> Use \<Rightarrow> bool"
  and takesThroughField_uses :: "bool \<Rightarrow> Use list \<Rightarrow> bool"
where
  "takesThroughField g (Use I p us) =
     (case kind I of
        LoadInst _ q \<Rightarrow> g \<and> q = LoadTake
      | AddrProjectionInst k _ _ \<Rightarrow> takesThroughField_uses (g \<or> k = Struct \<or> k = Tuple) us
      | _ \<Rightarrow> False)"
| "takesThroughField_uses g [] = False"
| "takesThroughField_uses g (u # us) = (takesThroughField g u \<or> takesThroughField_uses g us)"

section \<open>Functions, blocks and the dominator tree\<close>

text \<open>
  A function is the layout order of its blocks, the instruction list and the number of
  arguments of each block, and the next unused instruction identifier. A block's
  terminator is the \<open>TermInst\<close> in its list.
\<close>

record SILFunction =
  blockOrder :: "SILBasicBlock list"
  getInsts :: "SILBasicBlock \<Rightarrow> SILInstruction list"
  getNumArguments :: "SILBasicBlock \<Rightarrow> nat"
  nextId :: InstId

definition allInsts :: "SILFunction \<Rightarrow> (SILBasicBlock \<times> SILInstruction) list" where
  "allInsts F = concat (map (\<lambda>b. map (Pair b) (getInsts F b)) (blockOrder F))"

definition findInst :: "SILFunction \<Rightarrow> InstId \<Rightarrow> (SILBasicBlock \<times> SILInstruction) option" where
  "findInst F i = find (\<lambda>bi. instId (snd bi) = i) (allInsts F)"

text \<open>
  A node of the dominator tree with the chain of its immediate dominators
  (\<^verbatim>\<open>Node->getIDom()\<close>, null at the root). \<^verbatim>\<open>DT->getNode(BB)\<close> is null for a block that
  is not reachable from the entry. The dominance analysis itself is outside this file:
  its answers are the fields of \<open>DominanceInfo\<close>.
\<close>

datatype DomTreeNode = DomTreeNode (getBlock: SILBasicBlock) (getIDom: "DomTreeNode option")

record DominanceInfo =
  getNode :: "SILBasicBlock \<Rightarrow> DomTreeNode option"
  getChildren :: "DomTreeNode \<Rightarrow> DomTreeNode list"
  getRootNode :: DomTreeNode
  dominates :: "SILBasicBlock \<Rightarrow> SILBasicBlock \<Rightarrow> bool"
  properlyDominates :: "SILBasicBlock \<Rightarrow> SILBasicBlock \<Rightarrow> bool"

type_synonym DomTreeLevelMap = "DomTreeNode \<Rightarrow> nat"
type_synonym BlockSet = "SILBasicBlock list"
type_synonym BlockToInstMap = "SILBasicBlock \<Rightarrow> InstId option option"
type_synonym NodePriorityQueue = "(DomTreeNode \<times> nat) list"

section \<open>Live-in and live-out values\<close>

text \<open>\<^verbatim>\<open>BB->getArgument(BB->getNumArguments() - 1)\<close>; indexing a block without arguments
  fails the bounds assertion.\<close>

definition lastArgument :: "SILFunction \<Rightarrow> SILBasicBlock \<Rightarrow> error + SILValue" where
  "lastArgument F BB =
     (if getNumArguments F BB = 0 then Inl AssertionFailure
      else Inr (SILArgument BB (getNumArguments F BB - 1)))"

text \<open>
  The lookup \<^verbatim>\<open>LastStoreInBlock.find(BB)\<close> followed by \<^verbatim>\<open>dyn_cast_or_null<StoreInst>\<close> and
  \<^verbatim>\<open>St->getSrc()\<close>. The map holds instruction pointers; the source operand is read from
  the instruction as it is now.
\<close>

definition lastStoreSrc :: "SILFunction \<Rightarrow> BlockToInstMap \<Rightarrow> SILBasicBlock \<Rightarrow> error + SILValue option" where
  "lastStoreSrc F LastStoreInBlock BB =
     (case LastStoreInBlock BB of
        None \<Rightarrow> Inr None
      | Some None \<Rightarrow> Inr None
      | Some (Some St) \<Rightarrow>
          (case findInst F St of
             None \<Rightarrow> Inl NullDereference
           | Some (_, I) \<Rightarrow>
               (case kind I of StoreInst src _ _ \<Rightarrow> Inr (Some src) | _ \<Rightarrow> Inr None)))"

text \<open>The loop of \<^verbatim>\<open>getLiveOutValue\<close>: \<open>Node\<close> runs up the immediate dominators.\<close>

fun getLiveOutValue_walk ::
    "SILFunction \<Rightarrow> BlockToInstMap \<Rightarrow> BlockSet \<Rightarrow> SILType \<Rightarrow> DomTreeNode option \<Rightarrow> error + SILValue"
where
  "getLiveOutValue_walk F LastStoreInBlock PhiBlocks ty None = Inr (SILUndef ty)"
| "getLiveOutValue_walk F LastStoreInBlock PhiBlocks ty (Some (DomTreeNode BB idom)) =
     (case lastStoreSrc F LastStoreInBlock BB of
        Inl e \<Rightarrow> Inl e
      | Inr (Some src) \<Rightarrow> Inr src
      | Inr None \<Rightarrow>
          if BB \<in> set PhiBlocks then lastArgument F BB
          else getLiveOutValue_walk F LastStoreInBlock PhiBlocks ty idom)"

definition getLiveOutValue ::
    "SILFunction \<Rightarrow> DominanceInfo \<Rightarrow> BlockToInstMap \<Rightarrow> SILType \<Rightarrow> BlockSet \<Rightarrow> SILBasicBlock
      \<Rightarrow> error + SILValue"
where
  "getLiveOutValue F DT LastStoreInBlock ty PhiBlocks StartBB =
     getLiveOutValue_walk F LastStoreInBlock PhiBlocks ty (getNode DT StartBB)"

text \<open>\<^verbatim>\<open>getLiveInValue\<close>; \<open>pred_empty\<close> is \<^verbatim>\<open>BB->pred_empty()\<close>.\<close>

definition getLiveInValue ::
    "SILFunction \<Rightarrow> DominanceInfo \<Rightarrow> BlockToInstMap \<Rightarrow> SILType \<Rightarrow> (SILBasicBlock \<Rightarrow> bool)
      \<Rightarrow> BlockSet \<Rightarrow> SILBasicBlock \<Rightarrow> error + SILValue"
where
  "getLiveInValue F DT LastStoreInBlock ty pred_empty PhiBlocks BB =
     (if BB \<in> set PhiBlocks then lastArgument F BB
      else if pred_empty BB \<or> getNode DT BB = None then Inr (SILUndef ty)
      else
        (case getNode DT BB of
           None \<Rightarrow> Inr (SILUndef ty)
         | Some N \<Rightarrow>
             (case getIDom N of
                None \<Rightarrow> Inl AssertionFailure
              | Some IDom \<Rightarrow>
                  getLiveOutValue F DT LastStoreInBlock ty PhiBlocks (getBlock IDom))))"

section \<open>Phi placement\<close>

text \<open>
  The constructor of \<^verbatim>\<open>StackAllocationPromoter\<close> scans the uses for the deallocation:
  \<open>DSI\<close> is the only \<^verbatim>\<open>dealloc_stack\<close> among them, and null when there is none or more
  than one.
\<close>

fun findDeallocation :: "Use list \<Rightarrow> Use option \<Rightarrow> Use option" where
  "findDeallocation [] DSI = DSI"
| "findDeallocation (UI # rest) DSI =
     (case kind (getUser UI) of
        DeallocStackInst _ \<Rightarrow>
          (case DSI of
             Some _ \<Rightarrow> None
           | None \<Rightarrow> findDeallocation rest (Some UI))
      | _ \<Rightarrow> findDeallocation rest DSI)"

definition promoterDSI :: "Use list \<Rightarrow> Use option" where
  "promoterDSI uses = findDeallocation uses None"

text \<open>
  The priority queue is keyed on the dominator tree level, deepest first. Among
  entries of the same level \<^verbatim>\<open>std::priority_queue\<close> fixes no order; the model takes
  the one pushed first.
\<close>

fun pqTop :: "NodePriorityQueue \<Rightarrow> (DomTreeNode \<times> nat) option" where
  "pqTop [] = None"
| "pqTop (x # xs) =
     (case pqTop xs of
        None \<Rightarrow> Some x
      | Some y \<Rightarrow> if snd x < snd y then Some y else Some x)"

record PlacementState =
  visited :: "DomTreeNode list"
  phiBlocks :: BlockSet
  pqueue :: NodePriorityQueue

text \<open>The loop over the successors of one block in \<^verbatim>\<open>promoteAllocationToPhi\<close>.
  \<open>asiParent\<close> is \<^verbatim>\<open>ASI->getParent()\<close>, \<open>DSI\<close> the deallocation the constructor found.\<close>

fun inspectSuccessors ::
    "DominanceInfo \<Rightarrow> DomTreeLevelMap \<Rightarrow> SILBasicBlock \<Rightarrow> Use option \<Rightarrow> DomTreeNode \<Rightarrow> nat
      \<Rightarrow> SILBasicBlock list \<Rightarrow> PlacementState \<Rightarrow> error + PlacementState"
where
  "inspectSuccessors DT DomTreeLevels asiParent DSI Node RootLevel [] st = Inr st"
| "inspectSuccessors DT DomTreeLevels asiParent DSI Node RootLevel (Succ # rest) st =
     (case getNode DT Succ of
        None \<Rightarrow> Inl NullDereference
      | Some SuccNode \<Rightarrow>
          if getIDom SuccNode = Some Node
          then inspectSuccessors DT DomTreeLevels asiParent DSI Node RootLevel rest st
          else if DomTreeLevels SuccNode > RootLevel
          then inspectSuccessors DT DomTreeLevels asiParent DSI Node RootLevel rest st
          else if SuccNode \<in> set (visited st)
          then inspectSuccessors DT DomTreeLevels asiParent DSI Node RootLevel rest st
          else
            (let st1 = st\<lparr>visited := SuccNode # visited st\<rparr> in
             if \<not> dominates DT asiParent (getBlock SuccNode)
             then inspectSuccessors DT DomTreeLevels asiParent DSI Node RootLevel rest st1
             else if (case DSI of
                        None \<Rightarrow> False
                      | Some D \<Rightarrow> properlyDominates DT (getParent D) (getBlock SuccNode))
             then inspectSuccessors DT DomTreeLevels asiParent DSI Node RootLevel rest st1
             else if Succ \<in> set (phiBlocks st1)
             then inspectSuccessors DT DomTreeLevels asiParent DSI Node RootLevel rest st1
             else inspectSuccessors DT DomTreeLevels asiParent DSI Node RootLevel rest
                    (st1\<lparr>phiBlocks := phiBlocks st1 @ [Succ],
                         pqueue := pqueue st1 @ [(SuccNode, DomTreeLevels SuccNode)]\<rparr>)))"

text \<open>
  The inner loop over \<open>Worklist\<close>: the dominator subtree of \<open>Root\<close>, last pushed first.
  The dominator tree is data of the analysis, so the walk carries fuel: one unit per
  node taken from the worklist.
\<close>

fun walkSubtree ::
    "nat \<Rightarrow> DominanceInfo \<Rightarrow> DomTreeLevelMap \<Rightarrow> (SILBasicBlock \<Rightarrow> SILBasicBlock list)
      \<Rightarrow> SILBasicBlock \<Rightarrow> Use option \<Rightarrow> nat \<Rightarrow> DomTreeNode list \<Rightarrow> PlacementState
      \<Rightarrow> error + PlacementState"
where
  "walkSubtree fuel DT DomTreeLevels getSuccessors asiParent DSI RootLevel [] st = Inr st"
| "walkSubtree 0 DT DomTreeLevels getSuccessors asiParent DSI RootLevel (N # ns) st =
     Inl OutOfFuel"
| "walkSubtree (Suc fuel) DT DomTreeLevels getSuccessors asiParent DSI RootLevel (N # ns) st =
     (let Node = last (N # ns); Worklist = butlast (N # ns) in
      case inspectSuccessors DT DomTreeLevels asiParent DSI Node RootLevel
             (getSuccessors (getBlock Node)) st of
        Inl e \<Rightarrow> Inl e
      | Inr st' \<Rightarrow>
          walkSubtree fuel DT DomTreeLevels getSuccessors asiParent DSI RootLevel
            (Worklist @ filter (\<lambda>C. C \<notin> set (visited st')) (getChildren DT Node)) st')"

text \<open>The outer loop: while the priority queue is not empty.\<close>

fun placePhis ::
    "nat \<Rightarrow> DominanceInfo \<Rightarrow> DomTreeLevelMap \<Rightarrow> (SILBasicBlock \<Rightarrow> SILBasicBlock list)
      \<Rightarrow> SILBasicBlock \<Rightarrow> Use option \<Rightarrow> PlacementState \<Rightarrow> error + PlacementState"
where
  "placePhis fuel DT DomTreeLevels getSuccessors asiParent DSI st =
     (case pqTop (pqueue st) of
        None \<Rightarrow> Inr st
      | Some RootPair \<Rightarrow>
          (case fuel of
             0 \<Rightarrow> Inl OutOfFuel
           | Suc fuel' \<Rightarrow>
               (case walkSubtree fuel' DT DomTreeLevels getSuccessors asiParent DSI (snd RootPair)
                       [fst RootPair] (st\<lparr>pqueue := remove1 RootPair (pqueue st)\<rparr>) of
                  Inl e \<Rightarrow> Inl e
                | Inr st' \<Rightarrow>
                    placePhis fuel' DT DomTreeLevels getSuccessors asiParent DSI st')))"

text \<open>The stores among the uses seed the queue, each with the level of its block's
  node, when the block is in the dominator tree.\<close>

definition seedQueue :: "DominanceInfo \<Rightarrow> DomTreeLevelMap \<Rightarrow> Use list \<Rightarrow> NodePriorityQueue" where
  "seedQueue DT DomTreeLevels uses =
     concat (map (\<lambda>II.
       case kind (getUser II) of
         StoreInst _ _ _ \<Rightarrow>
           (case getNode DT (getParent II) of
              None \<Rightarrow> []
            | Some Node \<Rightarrow> [(Node, DomTreeLevels Node)])
       | _ \<Rightarrow> []) uses)"

text \<open>The phi blocks \<^verbatim>\<open>promoteAllocationToPhi\<close> computes before it adds the arguments.
  \<open>DSI\<close> is the field the constructor set; \<open>uses\<close> are the uses of the allocation when
  the placement starts, after pruning.\<close>

definition computePhiBlocks ::
    "nat \<Rightarrow> DominanceInfo \<Rightarrow> DomTreeLevelMap \<Rightarrow> (SILBasicBlock \<Rightarrow> SILBasicBlock list)
      \<Rightarrow> SILBasicBlock \<Rightarrow> Use option \<Rightarrow> Use list \<Rightarrow> error + BlockSet"
where
  "computePhiBlocks fuel DT DomTreeLevels getSuccessors asiParent DSI uses =
     (case placePhis fuel DT DomTreeLevels getSuccessors asiParent DSI
             \<lparr>visited = [], phiBlocks = [], pqueue = seedQueue DT DomTreeLevels uses\<rparr> of
        Inl e \<Rightarrow> Inl e
      | Inr st \<Rightarrow> Inr (phiBlocks st))"

section \<open>Reading and editing a function\<close>

fun operands :: "SILInstructionKind \<Rightarrow> SILValue list" where
  "operands (AllocStackInst _) = []"
| "operands (LoadInst v _) = [v]"
| "operands (StoreInst src dest _) = [src, dest]"
| "operands (AddrProjectionInst _ _ v) = [v]"
| "operands (ObjectProjectionInst _ _ v) = [v]"
| "operands (DeallocStackInst v) = [v]"
| "operands (DebugValueAddrInst v _) = [v]"
| "operands (DebugValueInst v _) = [v]"
| "operands (DestroyAddrInst v) = [v]"
| "operands (DestroyValueInst v) = [v]"
| "operands (CopyValueInst v) = [v]"
| "operands (BeginBorrowInst v) = [v]"
| "operands (EndBorrowInst v) = [v]"
| "operands (TupleInst _ vs) = vs"
| "operands (TermInst edges) = concat (map snd edges)"
| "operands (OtherInst vs) = vs"

fun mapOperands :: "(SILValue \<Rightarrow> SILValue) \<Rightarrow> SILInstructionKind \<Rightarrow> SILInstructionKind" where
  "mapOperands f (AllocStackInst ty) = AllocStackInst ty"
| "mapOperands f (LoadInst v q) = LoadInst (f v) q"
| "mapOperands f (StoreInst src dest q) = StoreInst (f src) (f dest) q"
| "mapOperands f (AddrProjectionInst k n v) = AddrProjectionInst k n (f v)"
| "mapOperands f (ObjectProjectionInst k n v) = ObjectProjectionInst k n (f v)"
| "mapOperands f (DeallocStackInst v) = DeallocStackInst (f v)"
| "mapOperands f (DebugValueAddrInst v i) = DebugValueAddrInst (f v) i"
| "mapOperands f (DebugValueInst v i) = DebugValueInst (f v) i"
| "mapOperands f (DestroyAddrInst v) = DestroyAddrInst (f v)"
| "mapOperands f (DestroyValueInst v) = DestroyValueInst (f v)"
| "mapOperands f (CopyValueInst v) = CopyValueInst (f v)"
| "mapOperands f (BeginBorrowInst v) = BeginBorrowInst (f v)"
| "mapOperands f (EndBorrowInst v) = EndBorrowInst (f v)"
| "mapOperands f (TupleInst ty vs) = TupleInst ty (map f vs)"
| "mapOperands f (TermInst edges) = TermInst (map (\<lambda>e. (fst e, map f (snd e))) edges)"
| "mapOperands f (OtherInst vs) = OtherInst (map f vs)"

text \<open>
  The use list of a value, one entry for each instruction that has the value as an
  operand. An operand enters a use list at its head, so \<^verbatim>\<open>use_begin()\<close> meets the
  operand set last first. Instruction identifiers are handed out in the order of
  creation (\<open>nextId\<close>), so the list holds the users by descending identifier. (An operand
  that \<^verbatim>\<open>replaceAllUsesWith\<close> moves goes to the head of its new list; the pass moves
  operands between loaded and stored values only, and reads the order of a use list for
  the allocation and the address projections beneath it.)
\<close>

definition getUsers :: "SILFunction \<Rightarrow> SILValue \<Rightarrow> (SILBasicBlock \<times> SILInstruction) list" where
  "getUsers F v =
     rev (sort_key (\<lambda>bi. instId (snd bi))
            (filter (\<lambda>bi. v \<in> set (operands (kind (snd bi)))) (allInsts F)))"

definition use_empty :: "SILFunction \<Rightarrow> SILValue \<Rightarrow> bool" where
  "use_empty F v = (getUsers F v = [])"

definition definingInst :: "SILFunction \<Rightarrow> SILValue \<Rightarrow> SILInstruction option" where
  "definingInst F v =
     (case v of InstResult i \<Rightarrow> map_option snd (findInst F i) | _ \<Rightarrow> None)"

definition eraseFromParent :: "InstId \<Rightarrow> SILFunction \<Rightarrow> SILFunction" where
  "eraseFromParent i F = F\<lparr>getInsts := (\<lambda>b. filter (\<lambda>I. instId I \<noteq> i) (getInsts F b))\<rparr>"

definition replaceAllUsesWith :: "SILValue \<Rightarrow> SILValue \<Rightarrow> SILFunction \<Rightarrow> SILFunction" where
  "replaceAllUsesWith old new F =
     F\<lparr>getInsts := (\<lambda>b. map (\<lambda>I. SILInstruction (instId I)
                                   (mapOperands (\<lambda>v. if v = old then new else v) (kind I)))
                            (getInsts F b))\<rparr>"

definition setKind :: "InstId \<Rightarrow> SILInstructionKind \<Rightarrow> SILFunction \<Rightarrow> SILFunction" where
  "setKind i k F =
     F\<lparr>getInsts := (\<lambda>b. map (\<lambda>I. if instId I = i then SILInstruction i k else I) (getInsts F b))\<rparr>"

fun insertBefore :: "InstId \<Rightarrow> SILInstruction \<Rightarrow> SILInstruction list \<Rightarrow> SILInstruction list" where
  "insertBefore pt new [] = []"
| "insertBefore pt new (I # rest) =
     (if instId I = pt then new # I # rest else I # insertBefore pt new rest)"

fun insertAfter :: "InstId \<Rightarrow> SILInstruction \<Rightarrow> SILInstruction list \<Rightarrow> SILInstruction list" where
  "insertAfter pt new [] = []"
| "insertAfter pt new (I # rest) =
     (if instId I = pt then I # new # rest else I # insertAfter pt new rest)"

text \<open>A builder whose insertion point is the instruction \<open>pt\<close> creates an instruction:
  it gets the next identifier and goes in front of \<open>pt\<close>.\<close>

definition createBefore :: "InstId \<Rightarrow> SILInstructionKind \<Rightarrow> SILFunction \<Rightarrow> SILFunction \<times> SILValue" where
  "createBefore pt k F =
     (F\<lparr>getInsts := (\<lambda>b. insertBefore pt (SILInstruction (nextId F) k) (getInsts F b)),
        nextId := Suc (nextId F)\<rparr>,
      InstResult (nextId F))"

definition createAfter :: "InstId \<Rightarrow> SILInstructionKind \<Rightarrow> SILFunction \<Rightarrow> SILFunction \<times> SILValue" where
  "createAfter pt k F =
     (F\<lparr>getInsts := (\<lambda>b. insertAfter pt (SILInstruction (nextId F) k) (getInsts F b)),
        nextId := Suc (nextId F)\<rparr>,
      InstResult (nextId F))"

fun createAllBefore :: "InstId \<Rightarrow> SILInstructionKind list \<Rightarrow> SILFunction \<Rightarrow> SILFunction" where
  "createAllBefore pt [] F = F"
| "createAllBefore pt (k # ks) F = createAllBefore pt ks (fst (createBefore pt k F))"

text \<open>
  The use tree of one entry of a use list, as the analyses read it: the users of a
  user are unfolded beneath address projections. A chain of projections that never
  ends (which SSA form excludes) runs out of fuel.
\<close>

fun useTree :: "nat \<Rightarrow> SILFunction \<Rightarrow> SILBasicBlock \<times> SILInstruction \<Rightarrow> Use option" where
  "useTree 0 F bi = None"
| "useTree (Suc n) F bi =
     (case kind (snd bi) of
        AddrProjectionInst _ _ _ \<Rightarrow>
          map_option (Use (snd bi) (fst bi))
            (those (map (useTree n F) (getUsers F (InstResult (instId (snd bi))))))
      | _ \<Rightarrow> Some (Use (snd bi) (fst bi) []))"

definition getUseTrees :: "nat \<Rightarrow> SILFunction \<Rightarrow> SILValue \<Rightarrow> error + Use list" where
  "getUseTrees fuel F v =
     (case those (map (useTree fuel F) (getUsers F v)) of
        None \<Rightarrow> Inl OutOfFuel
      | Some us \<Rightarrow> Inr us)"

text \<open>What the rest of the compiler answers: type lowering and ownership. These are
  not in this file; the pass is modelled for any answers.\<close>

record Externals =
  isLoadable :: "SILType \<Rightarrow> bool"
  hasOwnership :: bool
  isGuaranteed :: "SILValue \<Rightarrow> bool"
  beginBorrowNeeded :: "SILValue \<Rightarrow> bool"
  emitLoweredDestroyValue :: "SILValue option \<Rightarrow> SILInstructionKind list"

section \<open>Write-only allocations\<close>

fun isDeadAddrProjection :: "Use \<Rightarrow> bool" where
  "isDeadAddrProjection (Use I p us) =
     (case kind I of
        AddrProjectionInst _ _ _ \<Rightarrow> list_all isDeadAddrProjection us
      | _ \<Rightarrow> False)"

text \<open>\<open>isAllocStack src\<close> is \<^verbatim>\<open>isa<AllocStackInst>(SI->getSrc())\<close>.\<close>

definition isAllocStack :: "SILFunction \<Rightarrow> SILValue \<Rightarrow> bool" where
  "isAllocStack F v =
     (case definingInst F v of
        Some I \<Rightarrow> (case kind I of AllocStackInst _ \<Rightarrow> True | _ \<Rightarrow> False)
      | None \<Rightarrow> False)"

fun isWriteOnlyAllocation :: "SILFunction \<Rightarrow> Use list \<Rightarrow> bool" where
  "isWriteOnlyAllocation F [] = True"
| "isWriteOnlyAllocation F (II # rest) =
     (case kind (getUser II) of
        StoreInst src _ _ \<Rightarrow>
          if \<not> isAllocStack F src then isWriteOnlyAllocation F rest else False
      | DeallocStackInst _ \<Rightarrow> isWriteOnlyAllocation F rest
      | DebugValueAddrInst _ _ \<Rightarrow> isWriteOnlyAllocation F rest
      | _ \<Rightarrow> if isDeadAddrProjection II then isWriteOnlyAllocation F rest else False)"

section \<open>Replacing loads, debug values and destroys\<close>

text \<open>
  The loop \<^verbatim>\<open>while (op != ASI)\<close> of \<^verbatim>\<open>isLoadFromStack\<close> and \<^verbatim>\<open>replaceLoad\<close>: the
  address projections between an operand and the allocation, the one next to the
  operand first; \<open>None\<close> when the chain meets anything else.
\<close>

fun projectionPath ::
    "nat \<Rightarrow> SILFunction \<Rightarrow> SILValue \<Rightarrow> InstId \<Rightarrow> error + SILInstruction list option"
where
  "projectionPath 0 F op ASI = Inl OutOfFuel"
| "projectionPath (Suc n) F op ASI =
     (if op = InstResult ASI then Inr (Some [])
      else
        (case definingInst F op of
           None \<Rightarrow> Inr None
         | Some I \<Rightarrow>
             (case kind I of
                AddrProjectionInst k idx op' \<Rightarrow>
                  (case projectionPath n F op' ASI of
                     Inl e \<Rightarrow> Inl e
                   | Inr None \<Rightarrow> Inr None
                   | Inr (Some ps) \<Rightarrow> Inr (Some (I # ps)))
              | _ \<Rightarrow> Inr None)))"

definition isLoadFromStack :: "nat \<Rightarrow> SILFunction \<Rightarrow> SILInstruction \<Rightarrow> InstId \<Rightarrow> error + bool" where
  "isLoadFromStack fuel F I ASI =
     (case kind I of
        LoadInst op _ \<Rightarrow>
          (case projectionPath fuel F op ASI of
             Inl e \<Rightarrow> Inl e
           | Inr p \<Rightarrow> Inr (p \<noteq> None))
      | _ \<Rightarrow> Inr False)"

text \<open>
  The second loop of \<^verbatim>\<open>replaceLoad\<close>, over the projections from the allocation down
  to the load: a borrow in front of a struct or tuple projection when
  \<^verbatim>\<open>emitBeginBorrowOperation\<close> makes one, then the object projection.
\<close>

fun projectValue ::
    "Externals \<Rightarrow> InstId \<Rightarrow> SILInstruction list \<Rightarrow> SILValue \<Rightarrow> SILValue list \<Rightarrow> SILFunction
      \<Rightarrow> SILFunction \<times> SILValue \<times> SILValue list"
where
  "projectValue X LI [] val borrowedVals F = (F, val, borrowedVals)"
| "projectValue X LI (P # ps) val borrowedVals F =
     (case kind P of
        AddrProjectionInst k idx _ \<Rightarrow>
          (if (k = Struct \<or> k = Tuple) \<and> beginBorrowNeeded X val
           then
             (case createBefore LI (BeginBorrowInst val) F of
                (F1, opVal) \<Rightarrow>
                  (case createBefore LI (ObjectProjectionInst k idx opVal) F1 of
                     (F2, val') \<Rightarrow> projectValue X LI ps val' (borrowedVals @ [opVal]) F2))
           else
             (case createBefore LI (ObjectProjectionInst k idx val) F of
                (F2, val') \<Rightarrow> projectValue X LI ps val' borrowedVals F2))
      | _ \<Rightarrow> (F, val, borrowedVals))"

fun endBorrows :: "InstId \<Rightarrow> SILValue list \<Rightarrow> SILFunction \<Rightarrow> SILFunction" where
  "endBorrows LI [] F = F"
| "endBorrows LI (b # bs) F = endBorrows LI bs (fst (createBefore LI (EndBorrowInst b) F))"

text \<open>The last loop of \<^verbatim>\<open>replaceLoad\<close>: \<^verbatim>\<open>while (op != ASI && op->use_empty())\<close>.\<close>

fun eraseDeadProjections :: "SILInstruction list \<Rightarrow> SILFunction \<Rightarrow> SILFunction" where
  "eraseDeadProjections [] F = F"
| "eraseDeadProjections (P # ps) F =
     (if use_empty F (InstResult (instId P))
      then eraseDeadProjections ps (eraseFromParent (instId P) F)
      else F)"

definition replaceLoad ::
    "Externals \<Rightarrow> nat \<Rightarrow> InstId \<Rightarrow> SILValue \<Rightarrow> InstId \<Rightarrow> SILFunction \<Rightarrow> error + SILFunction"
where
  "replaceLoad X fuel LI val ASI F =
     (case findInst F LI of
        None \<Rightarrow> Inl NullDereference
      | Some (_, I) \<Rightarrow>
          (case kind I of
             LoadInst op q \<Rightarrow>
               (case projectionPath fuel F op ASI of
                  Inl e \<Rightarrow> Inl e
                | Inr None \<Rightarrow> Inl AssertionFailure
                | Inr (Some projections) \<Rightarrow>
                    (case projectValue X LI (rev projections) val [] F of
                       (F1, val1, borrowedVals) \<Rightarrow>
                         if q = LoadCopy
                         then
                           (case createBefore LI (CopyValueInst val1) F1 of
                              (F2, copy) \<Rightarrow>
                                Inr (eraseDeadProjections projections
                                      (eraseFromParent LI
                                        (endBorrows LI borrowedVals
                                          (replaceAllUsesWith (InstResult LI) copy F2)))))
                         else if hasOwnership X \<and> isGuaranteed X val1
                         then Inl AssertionFailure
                         else
                           Inr (eraseDeadProjections projections
                                 (eraseFromParent LI
                                   (endBorrows LI borrowedVals
                                     (replaceAllUsesWith (InstResult LI) val1 F1))))))
           | _ \<Rightarrow> Inl AssertionFailure))"

text \<open>\<^verbatim>\<open>promoteDebugValueAddr(DVAI, Value, B)\<close>; \<open>ty\<close> is the type of the operand of
  \<open>DVAI\<close>, the slot.\<close>

definition promoteDebugValueAddr ::
    "Externals \<Rightarrow> SILType \<Rightarrow> InstId \<Rightarrow> SILValue \<Rightarrow> SILFunction \<Rightarrow> error + SILFunction"
where
  "promoteDebugValueAddr X ty DVAI Value F =
     (case findInst F DVAI of
        None \<Rightarrow> Inl NullDereference
      | Some (_, I) \<Rightarrow>
          (case kind I of
             DebugValueAddrInst _ varInfo \<Rightarrow>
               if \<not> isLoadable X ty then Inl AssertionFailure
               else if list_ex (\<lambda>bi. case kind (snd bi) of
                                       DebugValueInst _ varInfo' \<Rightarrow> varInfo' = varInfo
                                     | _ \<Rightarrow> False) (getUsers F Value)
               then Inr (eraseFromParent DVAI F)
               else Inr (eraseFromParent DVAI (fst (createBefore DVAI (DebugValueInst Value varInfo) F)))
           | _ \<Rightarrow> Inl AssertionFailure))"

text \<open>\<^verbatim>\<open>replaceDestroy(DAI, NewValue)\<close>; \<open>NewValue\<close> may be null for an empty tuple.\<close>

definition replaceDestroy ::
    "Externals \<Rightarrow> SILType \<Rightarrow> InstId \<Rightarrow> SILValue option \<Rightarrow> SILFunction \<Rightarrow> error + SILFunction"
where
  "replaceDestroy X ty DAI NewValue F =
     (if \<not> isLoadable X ty then Inl AssertionFailure
      else if NewValue = None \<and> ty \<noteq> TupleType [] then Inl AssertionFailure
      else Inr (eraseFromParent DAI (createAllBefore DAI (emitLoweredDestroyValue X NewValue) F)))"

section \<open>The linear scan of one block\<close>

text \<open>
  The state of the loop of \<^verbatim>\<open>promoteAllocationInBlock\<close> is the function, \<open>RunningVal\<close>
  and \<open>LastStore\<close>. The store case: a \<^verbatim>\<open>store [assign]\<close> becomes a \<^verbatim>\<open>store [init]\<close>
  after a destroy of the old value, an earlier store is erased, and the store is the
  new \<open>LastStore\<close>.
\<close>

type_synonym PruneState = "SILFunction \<times> SILValue option \<times> InstId option"

definition pruneStore ::
    "InstId \<Rightarrow> InstId \<Rightarrow> SILValue \<Rightarrow> StoreOwnershipQualifier \<Rightarrow> PruneState \<Rightarrow> error + PruneState"
where
  "pruneStore ASI SI src q st =
     (case st of (F, RunningVal, LastStore) \<Rightarrow>
        (let F1 =
           (if q = StoreAssign
            then setKind SI (StoreInst src (InstResult ASI) StoreInit)
                   (case RunningVal of
                      Some v \<Rightarrow> fst (createBefore SI (DestroyValueInst v) F)
                    | None \<Rightarrow>
                        (case createBefore SI (LoadInst (InstResult ASI) LoadTake) F of
                           (F', newLoad) \<Rightarrow> fst (createBefore SI (DestroyValueInst newLoad) F')))
            else F)
         in
           case LastStore of
             None \<Rightarrow> Inr (F1, Some src, Some SI)
           | Some L \<Rightarrow>
               (case findInst F1 L of
                  None \<Rightarrow> Inl NullDereference
                | Some (_, LI) \<Rightarrow>
                    (case kind LI of
                       StoreInst _ _ StoreAssign \<Rightarrow> Inl AssertionFailure
                     | _ \<Rightarrow> Inr (eraseFromParent L F1, Some src, Some SI)))))"

text \<open>One turn of the loop of \<^verbatim>\<open>promoteAllocationInBlock\<close>; the flag says \<^verbatim>\<open>break\<close>.\<close>

definition promoteAllocationInBlock_inst ::
    "Externals \<Rightarrow> nat \<Rightarrow> InstId \<Rightarrow> SILType \<Rightarrow> SILInstruction \<Rightarrow> PruneState
      \<Rightarrow> error + (PruneState \<times> bool)"
where
  "promoteAllocationInBlock_inst X fuel ASI ty Inst st =
     (case st of (F, RunningVal, LastStore) \<Rightarrow>
        (case isLoadFromStack fuel F Inst ASI of
           Inl e \<Rightarrow> Inl e
         | Inr True \<Rightarrow>
             (case RunningVal of
                Some v \<Rightarrow>
                  (case replaceLoad X fuel (instId Inst) v ASI F of
                     Inl e \<Rightarrow> Inl e
                   | Inr F' \<Rightarrow> Inr ((F', RunningVal, LastStore), False))
              | None \<Rightarrow>
                  (case kind Inst of
                     LoadInst op q \<Rightarrow>
                       if op = InstResult ASI \<and> q \<noteq> LoadCopy
                       then Inr ((F, Some (InstResult (instId Inst)), LastStore), False)
                       else Inr (st, False)
                   | _ \<Rightarrow> Inr (st, False)))
         | Inr False \<Rightarrow>
             (case kind Inst of
                StoreInst src dest q \<Rightarrow>
                  if dest \<noteq> InstResult ASI then Inr (st, False)
                  else
                    (case pruneStore ASI (instId Inst) src q st of
                       Inl e \<Rightarrow> Inl e
                     | Inr st' \<Rightarrow> Inr (st', False))
              | DebugValueAddrInst op _ \<Rightarrow>
                  (case RunningVal of
                     Some v \<Rightarrow>
                       if op = InstResult ASI
                       then
                         (case promoteDebugValueAddr X ty (instId Inst) v F of
                            Inl e \<Rightarrow> Inl e
                          | Inr F' \<Rightarrow> Inr ((F', RunningVal, LastStore), False))
                       else Inr (st, False)
                   | None \<Rightarrow> Inr (st, False))
              | DestroyAddrInst op \<Rightarrow>
                  (case RunningVal of
                     Some v \<Rightarrow>
                       if op = InstResult ASI
                       then
                         (case replaceDestroy X ty (instId Inst) (Some v) F of
                            Inl e \<Rightarrow> Inl e
                          | Inr F' \<Rightarrow> Inr ((F', RunningVal, LastStore), False))
                       else Inr (st, False)
                   | None \<Rightarrow> Inr (st, False))
              | DestroyValueInst op \<Rightarrow>
                  if Some op = RunningVal then Inr ((F, RunningVal, None), False)
                  else Inr (st, False)
              | DeallocStackInst op \<Rightarrow>
                  if op = InstResult ASI then Inr (st, True) else Inr (st, False)
              | _ \<Rightarrow> Inr (st, False))))"

text \<open>
  The loop visits the instructions the block holds when the scan starts: an
  instruction the scan creates goes in front of the one being visited, and what it
  erases is the visited instruction or lies before it. The result carries the
  instructions left unvisited by a \<^verbatim>\<open>break\<close>.
\<close>

fun promoteAllocationInBlock_loop ::
    "Externals \<Rightarrow> nat \<Rightarrow> InstId \<Rightarrow> SILType \<Rightarrow> InstId list \<Rightarrow> PruneState
      \<Rightarrow> error + (PruneState \<times> InstId list)"
where
  "promoteAllocationInBlock_loop X fuel ASI ty [] st = Inr (st, [])"
| "promoteAllocationInBlock_loop X fuel ASI ty (BBI # rest) st =
     (case findInst (fst st) BBI of
        None \<Rightarrow> Inl NullDereference
      | Some (_, Inst) \<Rightarrow>
          (case promoteAllocationInBlock_inst X fuel ASI ty Inst st of
             Inl e \<Rightarrow> Inl e
           | Inr (st', True) \<Rightarrow> Inr (st', rest)
           | Inr (st', False) \<Rightarrow> promoteAllocationInBlock_loop X fuel ASI ty rest st'))"

definition promoteAllocationInBlock ::
    "Externals \<Rightarrow> nat \<Rightarrow> InstId \<Rightarrow> SILType \<Rightarrow> SILBasicBlock \<Rightarrow> SILFunction
      \<Rightarrow> error + (SILFunction \<times> InstId option)"
where
  "promoteAllocationInBlock X fuel ASI ty BB F =
     (case promoteAllocationInBlock_loop X fuel ASI ty (map instId (getInsts F BB))
             (F, None, None) of
        Inl e \<Rightarrow> Inl e
      | Inr ((F', RunningVal, LastStore), unvisited) \<Rightarrow> Inr (F', LastStore))"

section \<open>Single-block allocations\<close>

fun createValueForEmptyTuple ::
    "SILType \<Rightarrow> InstId \<Rightarrow> SILFunction \<Rightarrow> error + (SILFunction \<times> SILValue)"
  and createValueForEmptyTuple_elements ::
    "SILType list \<Rightarrow> InstId \<Rightarrow> SILFunction \<Rightarrow> error + (SILFunction \<times> SILValue list)"
where
  "createValueForEmptyTuple (NominalType n) insertionPoint F = Inl AssertionFailure"
| "createValueForEmptyTuple (TupleType tys) insertionPoint F =
     (case createValueForEmptyTuple_elements tys insertionPoint F of
        Inl e \<Rightarrow> Inl e
      | Inr (F', elements) \<Rightarrow>
          Inr (createBefore insertionPoint (TupleInst (TupleType tys) elements) F'))"
| "createValueForEmptyTuple_elements [] insertionPoint F = Inr (F, [])"
| "createValueForEmptyTuple_elements (t # ts) insertionPoint F =
     (case createValueForEmptyTuple t insertionPoint F of
        Inl e \<Rightarrow> Inl e
      | Inr (F1, v) \<Rightarrow>
          (case createValueForEmptyTuple_elements ts insertionPoint F1 of
             Inl e \<Rightarrow> Inl e
           | Inr (F2, vs) \<Rightarrow> Inr (F2, v # vs)))"

text \<open>The loop at the end of the body of \<^verbatim>\<open>removeSingleBlockAllocation\<close>: a dead
  address projection is erased, then its operand if that is one and died with it.\<close>

fun removeDeadAddrInsts :: "nat \<Rightarrow> SILValue \<Rightarrow> SILFunction \<Rightarrow> error + SILFunction" where
  "removeDeadAddrInsts fuel addr F =
     (case definingInst F addr of
        None \<Rightarrow> Inr F
      | Some addrInst \<Rightarrow>
          (case kind addrInst of
             AddrProjectionInst _ _ op \<Rightarrow>
               if use_empty F addr
               then
                 (case fuel of
                    0 \<Rightarrow> Inl OutOfFuel
                  | Suc fuel' \<Rightarrow>
                      removeDeadAddrInsts fuel' op (eraseFromParent (instId addrInst) F))
               else Inr F
           | _ \<Rightarrow> Inr F))"

text \<open>One turn of the loop of \<^verbatim>\<open>removeSingleBlockAllocation\<close>; the state is the function
  and \<open>RunningVal\<close>, the flag says \<^verbatim>\<open>break\<close>.\<close>

definition removeSingleBlockAllocation_inst ::
    "Externals \<Rightarrow> nat \<Rightarrow> InstId \<Rightarrow> SILType \<Rightarrow> SILInstruction \<Rightarrow> SILFunction \<times> SILValue option
      \<Rightarrow> error + ((SILFunction \<times> SILValue option) \<times> bool)"
where
  "removeSingleBlockAllocation_inst X fuel ASI ty Inst st =
     (case st of (F, RunningVal) \<Rightarrow>
        (case isLoadFromStack fuel F Inst ASI of
           Inl e \<Rightarrow> Inl e
         | Inr True \<Rightarrow>
             (case (case RunningVal of
                      Some v \<Rightarrow> Inr (F, v)
                    | None \<Rightarrow> createValueForEmptyTuple ty (instId Inst) F) of
                Inl e \<Rightarrow> Inl e
              | Inr (F1, v) \<Rightarrow>
                  (case replaceLoad X fuel (instId Inst) v ASI F1 of
                     Inl e \<Rightarrow> Inl e
                   | Inr F2 \<Rightarrow> Inr ((F2, Some v), False)))
         | Inr False \<Rightarrow>
             (case kind Inst of
                StoreInst src dest q \<Rightarrow>
                  if dest = InstResult ASI
                  then
                    (if q = StoreAssign
                     then
                       (case RunningVal of
                          None \<Rightarrow> Inl AssertionFailure
                        | Some v \<Rightarrow>
                            Inr ((eraseFromParent (instId Inst)
                                    (fst (createBefore (instId Inst) (DestroyValueInst v) F)),
                                  Some src), False))
                     else Inr ((eraseFromParent (instId Inst) F, Some src), False))
                  else Inr (st, False)
              | DebugValueAddrInst op _ \<Rightarrow>
                  if op = InstResult ASI
                  then
                    (case RunningVal of
                       Some v \<Rightarrow>
                         (case promoteDebugValueAddr X ty (instId Inst) v F of
                            Inl e \<Rightarrow> Inl e
                          | Inr F' \<Rightarrow> Inr ((F', RunningVal), False))
                     | None \<Rightarrow>
                         if ty \<noteq> TupleType [] then Inl AssertionFailure
                         else Inr ((eraseFromParent (instId Inst) F, RunningVal), False))
                  else Inr (st, False)
              | DestroyAddrInst op \<Rightarrow>
                  if op = InstResult ASI
                  then
                    (case replaceDestroy X ty (instId Inst) RunningVal F of
                       Inl e \<Rightarrow> Inl e
                     | Inr F' \<Rightarrow> Inr ((F', RunningVal), False))
                  else Inr (st, False)
              | DeallocStackInst op \<Rightarrow>
                  if op = InstResult ASI
                  then Inr ((eraseFromParent (instId Inst) F, RunningVal), True)
                  else Inr (st, False)
              | AddrProjectionInst _ _ _ \<Rightarrow>
                  (case removeDeadAddrInsts fuel (InstResult (instId Inst)) F of
                     Inl e \<Rightarrow> Inl e
                   | Inr F' \<Rightarrow> Inr ((F', RunningVal), False))
              | _ \<Rightarrow> Inr (st, False))))"

fun removeSingleBlockAllocation_loop ::
    "Externals \<Rightarrow> nat \<Rightarrow> InstId \<Rightarrow> SILType \<Rightarrow> InstId list \<Rightarrow> SILFunction \<times> SILValue option
      \<Rightarrow> error + ((SILFunction \<times> SILValue option) \<times> InstId list)"
where
  "removeSingleBlockAllocation_loop X fuel ASI ty [] st = Inr (st, [])"
| "removeSingleBlockAllocation_loop X fuel ASI ty (BBI # rest) st =
     (case findInst (fst st) BBI of
        None \<Rightarrow> Inl NullDereference
      | Some (_, Inst) \<Rightarrow>
          (case removeSingleBlockAllocation_inst X fuel ASI ty Inst st of
             Inl e \<Rightarrow> Inl e
           | Inr (st', True) \<Rightarrow> Inr (st', rest)
           | Inr (st', False) \<Rightarrow> removeSingleBlockAllocation_loop X fuel ASI ty rest st'))"

text \<open>\<^verbatim>\<open>removeSingleBlockAllocation(ASI)\<close>; \<open>BB\<close> is \<^verbatim>\<open>ASI->getParent()\<close>.\<close>

definition removeSingleBlockAllocation ::
    "Externals \<Rightarrow> nat \<Rightarrow> InstId \<Rightarrow> SILType \<Rightarrow> SILBasicBlock \<Rightarrow> SILFunction \<Rightarrow> error + SILFunction"
where
  "removeSingleBlockAllocation X fuel ASI ty BB F =
     (case removeSingleBlockAllocation_loop X fuel ASI ty (map instId (getInsts F BB))
             (F, None) of
        Inl e \<Rightarrow> Inl e
      | Inr ((F', RunningVal), unvisited) \<Rightarrow> Inr F')"

section \<open>Cross-block promotion\<close>

definition getSuccessorBlocks :: "SILFunction \<Rightarrow> SILBasicBlock \<Rightarrow> SILBasicBlock list" where
  "getSuccessorBlocks F BB =
     concat (map (\<lambda>I. case kind I of TermInst edges \<Rightarrow> map fst edges | _ \<Rightarrow> []) (getInsts F BB))"

definition getPredecessorBlocks :: "SILFunction \<Rightarrow> SILBasicBlock \<Rightarrow> SILBasicBlock list" where
  "getPredecessorBlocks F BB =
     concat (map (\<lambda>P. map (\<lambda>_. P) (filter (\<lambda>S. S = BB) (getSuccessorBlocks F P))) (blockOrder F))"

text \<open>\<^verbatim>\<open>pruneAllocStackUsage\<close>: the blocks holding a use, each once in the order met, are
  scanned, and the store each scan returns is recorded.\<close>

fun pruneBlocks ::
    "Externals \<Rightarrow> nat \<Rightarrow> InstId \<Rightarrow> SILType \<Rightarrow> SILBasicBlock list \<Rightarrow> SILFunction \<times> BlockToInstMap
      \<Rightarrow> error + (SILFunction \<times> BlockToInstMap)"
where
  "pruneBlocks X fuel ASI ty [] st = Inr st"
| "pruneBlocks X fuel ASI ty (Block # Blocks) st =
     (case promoteAllocationInBlock X fuel ASI ty Block (fst st) of
        Inl e \<Rightarrow> Inl e
      | Inr (F', SI) \<Rightarrow> pruneBlocks X fuel ASI ty Blocks (F', (snd st)(Block := Some SI)))"

definition pruneAllocStackUsage ::
    "Externals \<Rightarrow> nat \<Rightarrow> InstId \<Rightarrow> SILType \<Rightarrow> SILFunction \<Rightarrow> error + (SILFunction \<times> BlockToInstMap)"
where
  "pruneAllocStackUsage X fuel ASI ty F =
     pruneBlocks X fuel ASI ty (rev (remdups (rev (map fst (getUsers F (InstResult ASI))))))
       (F, \<lambda>_. None)"

definition addBlockArguments :: "BlockSet \<Rightarrow> SILFunction \<Rightarrow> SILFunction" where
  "addBlockArguments PhiBlocks F =
     F\<lparr>getNumArguments := (\<lambda>b. if b \<in> set PhiBlocks then Suc (getNumArguments F b)
                                else getNumArguments F b)\<rparr>"

fun collectLoads :: "Use \<Rightarrow> Use list" where
  "collectLoads (Use I p us) =
     (case kind I of
        LoadInst _ _ \<Rightarrow> [Use I p us]
      | AddrProjectionInst _ _ _ \<Rightarrow> concat (map collectLoads us)
      | _ \<Rightarrow> [])"

text \<open>The loop over \<open>collectedLoads\<close> in \<^verbatim>\<open>fixBranchesAndUses\<close>.\<close>

fun fixLoads ::
    "Externals \<Rightarrow> nat \<Rightarrow> DominanceInfo \<Rightarrow> BlockToInstMap \<Rightarrow> InstId \<Rightarrow> SILType \<Rightarrow> BlockSet
      \<Rightarrow> Use list \<Rightarrow> SILFunction \<Rightarrow> error + SILFunction"
where
  "fixLoads X fuel DT LastStoreInBlock ASI ty PhiBlocks [] F = Inr F"
| "fixLoads X fuel DT LastStoreInBlock ASI ty PhiBlocks (LI # rest) F =
     (case getLiveInValue F DT LastStoreInBlock ty (\<lambda>b. getPredecessorBlocks F b = [])
             PhiBlocks (getParent LI) of
        Inl e \<Rightarrow> Inl e
      | Inr Def \<Rightarrow>
          (case replaceLoad X fuel (instId (getUser LI)) Def ASI F of
             Inl e \<Rightarrow> Inl e
           | Inr F' \<Rightarrow> fixLoads X fuel DT LastStoreInBlock ASI ty PhiBlocks rest F'))"

text \<open>The first loop of \<^verbatim>\<open>fixBranchesAndUses\<close>, over the uses of the allocation.\<close>

fun fixUses ::
    "Externals \<Rightarrow> nat \<Rightarrow> DominanceInfo \<Rightarrow> BlockToInstMap \<Rightarrow> InstId \<Rightarrow> SILType \<Rightarrow> BlockSet
      \<Rightarrow> (SILBasicBlock \<times> InstId) list \<Rightarrow> SILFunction \<Rightarrow> error + SILFunction"
where
  "fixUses X fuel DT LastStoreInBlock ASI ty PhiBlocks [] F = Inr F"
| "fixUses X fuel DT LastStoreInBlock ASI ty PhiBlocks (UI # rest) F =
     (case findInst F (snd UI) of
        None \<Rightarrow> Inl NullDereference
      | Some (BB, Inst) \<Rightarrow>
          (case useTree fuel F (BB, Inst) of
             None \<Rightarrow> Inl OutOfFuel
           | Some tree \<Rightarrow>
               (case collectLoads tree of
                  LI # lis \<Rightarrow>
                    (case fixLoads X fuel DT LastStoreInBlock ASI ty PhiBlocks (LI # lis) F of
                       Inl e \<Rightarrow> Inl e
                     | Inr F' \<Rightarrow> fixUses X fuel DT LastStoreInBlock ASI ty PhiBlocks rest F')
                | [] \<Rightarrow>
                    (case kind Inst of
                       DebugValueAddrInst _ _ \<Rightarrow>
                         (case getLiveInValue F DT LastStoreInBlock ty
                                 (\<lambda>b. getPredecessorBlocks F b = []) PhiBlocks BB of
                            Inl e \<Rightarrow> Inl e
                          | Inr Def \<Rightarrow>
                              (case promoteDebugValueAddr X ty (instId Inst) Def F of
                                 Inl e \<Rightarrow> Inl e
                               | Inr F' \<Rightarrow>
                                   fixUses X fuel DT LastStoreInBlock ASI ty PhiBlocks rest F'))
                     | DestroyAddrInst _ \<Rightarrow>
                         (case getLiveInValue F DT LastStoreInBlock ty
                                 (\<lambda>b. getPredecessorBlocks F b = []) PhiBlocks BB of
                            Inl e \<Rightarrow> Inl e
                          | Inr Def \<Rightarrow>
                              (case replaceDestroy X ty (instId Inst) (Some Def) F of
                                 Inl e \<Rightarrow> Inl e
                               | Inr F' \<Rightarrow>
                                   fixUses X fuel DT LastStoreInBlock ASI ty PhiBlocks rest F'))
                     | _ \<Rightarrow> fixUses X fuel DT LastStoreInBlock ASI ty PhiBlocks rest F))))"

text \<open>
  Modelled from the spec: \<^verbatim>\<open>addArgumentToBranch\<close> is not in this file. "Append it as
  that edge's branch argument, replacing the predecessor's terminator": the terminator
  of \<open>Pred\<close> is replaced by a new one in which every edge to \<open>Dest\<close> carries one more
  argument.
\<close>

definition addArgumentToBranch ::
    "SILValue \<Rightarrow> SILBasicBlock \<Rightarrow> SILBasicBlock \<Rightarrow> SILFunction \<Rightarrow> SILFunction"
where
  "addArgumentToBranch Def Dest Pred F =
     F\<lparr>getInsts := (getInsts F)(Pred :=
          map (\<lambda>I. case kind I of
                     TermInst edges \<Rightarrow>
                       SILInstruction (nextId F)
                         (TermInst (map (\<lambda>e. if fst e = Dest then (fst e, snd e @ [Def]) else e) edges))
                   | _ \<Rightarrow> I) (getInsts F Pred)),
       nextId := Suc (nextId F)\<rparr>"

definition fixPhiPredBlock ::
    "DominanceInfo \<Rightarrow> BlockToInstMap \<Rightarrow> SILType \<Rightarrow> BlockSet \<Rightarrow> SILBasicBlock \<Rightarrow> SILBasicBlock
      \<Rightarrow> SILFunction \<Rightarrow> error + SILFunction"
where
  "fixPhiPredBlock DT LastStoreInBlock ty PhiBlocks Dest Pred F =
     (case getLiveOutValue F DT LastStoreInBlock ty PhiBlocks Pred of
        Inl e \<Rightarrow> Inl e
      | Inr Def \<Rightarrow> Inr (addArgumentToBranch Def Dest Pred F))"

fun fixPredecessors ::
    "DominanceInfo \<Rightarrow> BlockToInstMap \<Rightarrow> SILType \<Rightarrow> BlockSet \<Rightarrow> SILBasicBlock
      \<Rightarrow> SILBasicBlock list \<Rightarrow> SILFunction \<Rightarrow> error + SILFunction"
where
  "fixPredecessors DT LastStoreInBlock ty PhiBlocks Block [] F = Inr F"
| "fixPredecessors DT LastStoreInBlock ty PhiBlocks Block (PBB # rest) F =
     (case fixPhiPredBlock DT LastStoreInBlock ty PhiBlocks Block PBB F of
        Inl e \<Rightarrow> Inl e
      | Inr F' \<Rightarrow> fixPredecessors DT LastStoreInBlock ty PhiBlocks Block rest F')"

fun fixBranches ::
    "DominanceInfo \<Rightarrow> BlockToInstMap \<Rightarrow> SILType \<Rightarrow> BlockSet \<Rightarrow> SILBasicBlock list
      \<Rightarrow> SILFunction \<Rightarrow> error + SILFunction"
where
  "fixBranches DT LastStoreInBlock ty PhiBlocks [] F = Inr F"
| "fixBranches DT LastStoreInBlock ty PhiBlocks (Block # rest) F =
     (case fixPredecessors DT LastStoreInBlock ty PhiBlocks Block
             (getPredecessorBlocks F Block) F of
        Inl e \<Rightarrow> Inl e
      | Inr F' \<Rightarrow> fixBranches DT LastStoreInBlock ty PhiBlocks rest F')"

text \<open>
  Modelled from the spec: \<^verbatim>\<open>erasePhiArgument\<close> is not in this file. "Delete any newly
  added block parameter left with zero uses": the block loses its last argument, and
  every edge into it the value sent for that argument.
\<close>

definition erasePhiArgument :: "SILBasicBlock \<Rightarrow> nat \<Rightarrow> SILFunction \<Rightarrow> SILFunction" where
  "erasePhiArgument Block argIndex F =
     F\<lparr>getInsts := (\<lambda>b. map (\<lambda>I. case kind I of
                                   TermInst edges \<Rightarrow>
                                     SILInstruction (instId I)
                                       (TermInst (map (\<lambda>e. if fst e = Block
                                                            then (fst e, take argIndex (snd e) @ drop (Suc argIndex) (snd e))
                                                            else e) edges))
                                 | _ \<Rightarrow> I) (getInsts F b)),
       getNumArguments := (getNumArguments F)(Block := getNumArguments F Block - 1)\<rparr>"

fun eraseDeadPhis :: "SILBasicBlock list \<Rightarrow> SILFunction \<Rightarrow> error + SILFunction" where
  "eraseDeadPhis [] F = Inr F"
| "eraseDeadPhis (Block # rest) F =
     (case lastArgument F Block of
        Inl e \<Rightarrow> Inl e
      | Inr phiArg \<Rightarrow>
          if use_empty F phiArg
          then eraseDeadPhis rest (erasePhiArgument Block (getNumArguments F Block - 1) F)
          else eraseDeadPhis rest F)"

definition fixBranchesAndUses ::
    "Externals \<Rightarrow> nat \<Rightarrow> DominanceInfo \<Rightarrow> BlockToInstMap \<Rightarrow> InstId \<Rightarrow> SILType \<Rightarrow> BlockSet
      \<Rightarrow> SILFunction \<Rightarrow> error + SILFunction"
where
  "fixBranchesAndUses X fuel DT LastStoreInBlock ASI ty PhiBlocks F =
     (case fixUses X fuel DT LastStoreInBlock ASI ty PhiBlocks
             (map (\<lambda>bi. (fst bi, instId (snd bi))) (getUsers F (InstResult ASI))) F of
        Inl e \<Rightarrow> Inl e
      | Inr F1 \<Rightarrow>
          (case fixBranches DT LastStoreInBlock ty PhiBlocks PhiBlocks F1 of
             Inl e \<Rightarrow> Inl e
           | Inr F2 \<Rightarrow> eraseDeadPhis PhiBlocks F2))"

text \<open>\<^verbatim>\<open>promoteAllocationToPhi\<close>; \<open>asiParent\<close> is \<^verbatim>\<open>ASI->getParent()\<close>.\<close>

definition promoteAllocationToPhi ::
    "Externals \<Rightarrow> nat \<Rightarrow> DominanceInfo \<Rightarrow> DomTreeLevelMap \<Rightarrow> BlockToInstMap \<Rightarrow> InstId \<Rightarrow> SILType
      \<Rightarrow> SILBasicBlock \<Rightarrow> Use option \<Rightarrow> SILFunction \<Rightarrow> error + SILFunction"
where
  "promoteAllocationToPhi X fuel DT DomTreeLevels LastStoreInBlock ASI ty asiParent DSI F =
     (case getUseTrees fuel F (InstResult ASI) of
        Inl e \<Rightarrow> Inl e
      | Inr uses \<Rightarrow>
          (case computePhiBlocks fuel DT DomTreeLevels (getSuccessorBlocks F) asiParent DSI uses of
             Inl e \<Rightarrow> Inl e
           | Inr PhiBlocks \<Rightarrow>
               fixBranchesAndUses X fuel DT LastStoreInBlock ASI ty PhiBlocks
                 (addBlockArguments PhiBlocks F)))"

text \<open>The constructor of \<^verbatim>\<open>StackAllocationPromoter\<close> followed by its \<^verbatim>\<open>run\<close>.\<close>

definition StackAllocationPromoter_run ::
    "Externals \<Rightarrow> nat \<Rightarrow> DominanceInfo \<Rightarrow> DomTreeLevelMap \<Rightarrow> InstId \<Rightarrow> SILType \<Rightarrow> SILBasicBlock
      \<Rightarrow> SILFunction \<Rightarrow> error + SILFunction"
where
  "StackAllocationPromoter_run X fuel DT DomTreeLevels ASI ty asiParent F =
     (case getUseTrees fuel F (InstResult ASI) of
        Inl e \<Rightarrow> Inl e
      | Inr uses \<Rightarrow>
          (case pruneAllocStackUsage X fuel ASI ty F of
             Inl e \<Rightarrow> Inl e
           | Inr (F1, LastStoreInBlock) \<Rightarrow>
               promoteAllocationToPhi X fuel DT DomTreeLevels LastStoreInBlock ASI ty asiParent
                 (promoterDSI uses) F1))"

section \<open>The pass\<close>

text \<open>
  Modelled from the spec: \<^verbatim>\<open>eraseUsesOfInstruction\<close> is not in this file. "The
  orchestrator deletes every use of the slot outright": while the instruction has a
  user, the uses of that user are erased, then the user.
\<close>

fun eraseUsesOfInstruction :: "nat \<Rightarrow> InstId \<Rightarrow> SILFunction \<Rightarrow> error + SILFunction" where
  "eraseUsesOfInstruction fuel inst F =
     (case getUsers F (InstResult inst) of
        [] \<Rightarrow> Inr F
      | user # _ \<Rightarrow>
          (case fuel of
             0 \<Rightarrow> Inl OutOfFuel
           | Suc fuel' \<Rightarrow>
               (case eraseUsesOfInstruction fuel' (instId (snd user)) F of
                  Inl e \<Rightarrow> Inl e
                | Inr F1 \<Rightarrow>
                    eraseUsesOfInstruction fuel' inst (eraseFromParent (instId (snd user)) F1))))"

text \<open>\<^verbatim>\<open>promoteSingleAllocation(alloc, DomTreeLevels)\<close>: the function after it, and
  whether the allocation was promoted. \<open>BB\<close> is the block of \<open>alloc\<close>.\<close>

definition promoteSingleAllocation ::
    "Externals \<Rightarrow> nat \<Rightarrow> DominanceInfo \<Rightarrow> DomTreeLevelMap \<Rightarrow> SILBasicBlock \<Rightarrow> InstId \<Rightarrow> SILType
      \<Rightarrow> SILFunction \<Rightarrow> error + (SILFunction \<times> bool)"
where
  "promoteSingleAllocation X fuel DT DomTreeLevels BB alloc ty F =
     (case getUseTrees fuel F (InstResult alloc) of
        Inl e \<Rightarrow> Inl e
      | Inr uses \<Rightarrow>
          (case isCaptured (isLoadable X ty) alloc BB uses False of
             (True, _) \<Rightarrow> Inr (F, False)
           | (False, inSingleBlock) \<Rightarrow>
               if isWriteOnlyAllocation F uses
               then
                 (case eraseUsesOfInstruction fuel alloc F of
                    Inl e \<Rightarrow> Inl e
                  | Inr F' \<Rightarrow> Inr (F', True))
               else if inSingleBlock
               then
                 (case removeSingleBlockAllocation X fuel alloc ty BB F of
                    Inl e \<Rightarrow> Inl e
                  | Inr F' \<Rightarrow>
                      if \<not> use_empty F' (InstResult alloc)
                      then Inr (fst (createAfter alloc (DeallocStackInst (InstResult alloc)) F'), True)
                      else Inr (F', True))
               else
                 (case StackAllocationPromoter_run X fuel DT DomTreeLevels alloc ty BB F of
                    Inl e \<Rightarrow> Inl e
                  | Inr F1 \<Rightarrow>
                      (case getUseTrees fuel F1 (InstResult alloc) of
                         Inl e \<Rightarrow> Inl e
                       | Inr uses1 \<Rightarrow>
                           if \<not> isWriteOnlyAllocation F1 uses1 then Inl AssertionFailure
                           else
                             (case eraseUsesOfInstruction fuel alloc F1 of
                                Inl e \<Rightarrow> Inl e
                              | Inr F2 \<Rightarrow> Inr (F2, True))))))"






section \<open>Predicates of the statements\<close>

text \<open>A dominator tree answers consistently: the node of a block is a node of that
  block, and the immediate dominator of a node is the node of its own block.\<close>

definition wellFormedDT :: "DominanceInfo \<Rightarrow> bool" where
  "wellFormedDT DT =
     (\<forall>b n. getNode DT b = Some n \<longrightarrow>
        getBlock n = b \<and> (\<forall>d. getIDom n = Some d \<longrightarrow> getNode DT (getBlock d) = Some d))"

definition isDealloc :: "Use \<Rightarrow> bool" where
  "isDealloc u = (case kind (getUser u) of DeallocStackInst _ \<Rightarrow> True | _ \<Rightarrow> False)"

text \<open>Every block of the list is dominated by the block of the allocation and not
  properly dominated by the block of \<open>DSI\<close>, when there is one.\<close>

definition phiBlocksOk :: "DominanceInfo \<Rightarrow> SILBasicBlock \<Rightarrow> Use option \<Rightarrow> BlockSet \<Rightarrow> bool" where
  "phiBlocksOk DT asiParent DSI blocks =
     list_all (\<lambda>b. dominates DT asiParent b \<and>
                  (case DSI of
                     None \<Rightarrow> True
                   | Some D \<Rightarrow> \<not> properlyDominates DT (getParent D) b)) blocks"

section \<open>Example functions\<close>

definition exampleExternals :: Externals where
  "exampleExternals =
     \<lparr>isLoadable = (\<lambda>_. True), hasOwnership = True, isGuaranteed = (\<lambda>_. False),
      beginBorrowNeeded = (\<lambda>_. True),
      emitLoweredDestroyValue = (\<lambda>v. case v of None \<Rightarrow> [] | Some x \<Rightarrow> [DestroyValueInst x])\<rparr>"

text \<open>A function of one block, and its dominator tree.\<close>

definition entryNode :: DomTreeNode where
  "entryNode = DomTreeNode 0 None"

definition oneBlockDT :: DominanceInfo where
  "oneBlockDT =
     \<lparr>getNode = (\<lambda>b. if b = 0 then Some entryNode else None),
      getChildren = (\<lambda>_. []),
      getRootNode = entryNode,
      dominates = (\<lambda>a b. a = 0 \<or> a = b),
      properlyDominates = (\<lambda>a b. a = 0 \<and> b \<noteq> 0)\<rparr>"

text \<open>A diamond: block 0 branches to blocks 1 and 2, which both branch to block 3.
  Block 4 is not reachable from the entry and branches to block 3 too.\<close>

definition diamondNode :: "SILBasicBlock \<Rightarrow> DomTreeNode" where
  "diamondNode b = (if b = 0 then entryNode else DomTreeNode b (Some entryNode))"

definition diamondDT :: DominanceInfo where
  "diamondDT =
     \<lparr>getNode = (\<lambda>b. if b < 4 then Some (diamondNode b) else None),
      getChildren = (\<lambda>n. if n = entryNode then [diamondNode 1, diamondNode 2, diamondNode 3] else []),
      getRootNode = entryNode,
      dominates = (\<lambda>a b. a = 0 \<or> a = b),
      properlyDominates = (\<lambda>a b. a = 0 \<and> b \<noteq> 0)\<rparr>"

definition diamondLevels :: DomTreeLevelMap where
  "diamondLevels n = (if n = entryNode then 0 else 1)"

definition diamond :: SILFunction where
  "diamond =
     \<lparr>blockOrder = [0, 1, 2, 3, 4],
      getInsts = (\<lambda>b.
        if b = 0 then
          [SILInstruction 1 (AllocStackInst (NominalType 0)),
           SILInstruction 2 (TermInst [(1, []), (2, [])])]
        else if b = 1 then
          [SILInstruction 3 (StoreInst (SILArgument 0 0) (InstResult 1) StoreInit),
           SILInstruction 4 (TermInst [(3, [])])]
        else if b = 2 then
          [SILInstruction 5 (StoreInst (SILArgument 0 1) (InstResult 1) StoreInit),
           SILInstruction 6 (TermInst [(3, [])])]
        else if b = 3 then
          [SILInstruction 7 (LoadInst (InstResult 1) LoadTake),
           SILInstruction 8 (OtherInst [InstResult 7]),
           SILInstruction 9 (DeallocStackInst (InstResult 1)),
           SILInstruction 10 (TermInst [])]
        else if b = 4 then
          [SILInstruction 11 (StoreInst (SILArgument 0 0) (InstResult 1) StoreInit),
           SILInstruction 12 (TermInst [(3, [])])]
        else []),
      getNumArguments = (\<lambda>b. if b = 0 then 2 else 0),
      nextId = 13\<rparr>"

definition diamondUses :: "Use list" where
  "diamondUses =
     [Use (SILInstruction 11 (StoreInst (SILArgument 0 0) (InstResult 1) StoreInit)) 4 [],
      Use (SILInstruction 9 (DeallocStackInst (InstResult 1))) 3 [],
      Use (SILInstruction 7 (LoadInst (InstResult 1) LoadTake)) 3 [],
      Use (SILInstruction 5 (StoreInst (SILArgument 0 1) (InstResult 1) StoreInit)) 2 [],
      Use (SILInstruction 3 (StoreInst (SILArgument 0 0) (InstResult 1) StoreInit)) 1 []]"

definition diamondLastStores :: BlockToInstMap where
  "diamondLastStores b =
     (if b = 1 then Some (Some 3) else if b = 2 then Some (Some 5)
      else if b = 3 then Some None else if b = 4 then Some (Some 11) else None)"

text \<open>A slot whose field is read by a \<^verbatim>\<open>load [take]\<close>.\<close>

definition takeThroughField :: SILFunction where
  "takeThroughField =
     \<lparr>blockOrder = [0],
      getInsts = (\<lambda>b.
        if b = 0 then
          [SILInstruction 1 (AllocStackInst (NominalType 0)),
           SILInstruction 2 (StoreInst (SILArgument 0 0) (InstResult 1) StoreInit),
           SILInstruction 3 (AddrProjectionInst BitwiseCast 0 (InstResult 1)),
           SILInstruction 4 (AddrProjectionInst Struct 1 (InstResult 3)),
           SILInstruction 5 (LoadInst (InstResult 4) LoadTake),
           SILInstruction 6 (DeallocStackInst (InstResult 1)),
           SILInstruction 7 (TermInst [])]
        else []),
      getNumArguments = (\<lambda>b. if b = 0 then 1 else 0),
      nextId = 8\<rparr>"

definition takeThroughFieldUses :: "Use list" where
  "takeThroughFieldUses =
     [Use (SILInstruction 6 (DeallocStackInst (InstResult 1))) 0 [],
      Use (SILInstruction 3 (AddrProjectionInst BitwiseCast 0 (InstResult 1))) 0
        [Use (SILInstruction 4 (AddrProjectionInst Struct 1 (InstResult 3))) 0
           [Use (SILInstruction 5 (LoadInst (InstResult 4) LoadTake)) 0 []]],
      Use (SILInstruction 2 (StoreInst (SILArgument 0 0) (InstResult 1) StoreInit)) 0 []]"

text \<open>A slot allocated in block 0 whose uses all lie in block 1.\<close>

definition usesInOtherBlock :: "Use list" where
  "usesInOtherBlock =
     [Use (SILInstruction 6 (DeallocStackInst (InstResult 1))) 1 [],
      Use (SILInstruction 4 (AddrProjectionInst Tuple 0 (InstResult 1))) 1
        [Use (SILInstruction 5 (LoadInst (InstResult 4) LoadCopy)) 1 []],
      Use (SILInstruction 3 (StoreInst (SILArgument 0 0) (InstResult 1) StoreInit)) 1 []]"

definition usesInOwnBlock :: "Use list" where
  "usesInOwnBlock =
     [Use (SILInstruction 6 (DeallocStackInst (InstResult 1))) 0 [],
      Use (SILInstruction 4 (AddrProjectionInst Tuple 0 (InstResult 1))) 0
        [Use (SILInstruction 5 (LoadInst (InstResult 4) LoadCopy)) 0 []],
      Use (SILInstruction 3 (StoreInst (SILArgument 0 0) (InstResult 1) StoreInit)) 0 []]"

text \<open>A slot of one block that is used after its deallocation.\<close>

definition useAfterDealloc :: SILFunction where
  "useAfterDealloc =
     \<lparr>blockOrder = [0],
      getInsts = (\<lambda>b.
        if b = 0 then
          [SILInstruction 1 (AllocStackInst (NominalType 0)),
           SILInstruction 2 (StoreInst (SILArgument 0 0) (InstResult 1) StoreInit),
           SILInstruction 3 (DeallocStackInst (InstResult 1)),
           SILInstruction 4 (LoadInst (InstResult 1) LoadTrivial),
           SILInstruction 5 (TermInst [])]
        else []),
      getNumArguments = (\<lambda>b. if b = 0 then 1 else 0),
      nextId = 6\<rparr>"

text \<open>Functions of two blocks: the slot is allocated and stored to in block 0, which
  branches to block 1; the instructions of block 1 are \<open>body\<close>.\<close>

definition twoBlocks :: "SILInstruction list \<Rightarrow> SILFunction" where
  "twoBlocks body =
     \<lparr>blockOrder = [0, 1],
      getInsts = (\<lambda>b.
        if b = 0 then
          [SILInstruction 1 (AllocStackInst (NominalType 0)),
           SILInstruction 2 (StoreInst (SILArgument 0 0) (InstResult 1) StoreInit),
           SILInstruction 3 (TermInst [(1, [])])]
        else if b = 1 then body
        else []),
      getNumArguments = (\<lambda>b. if b = 0 then 2 else 0),
      nextId = 20\<rparr>"

definition destroyThenLoad :: SILFunction where
  "destroyThenLoad = twoBlocks
     [SILInstruction 4 (StoreInst (SILArgument 0 1) (InstResult 1) StoreInit),
      SILInstruction 5 (DestroyValueInst (SILArgument 0 1)),
      SILInstruction 6 (LoadInst (InstResult 1) LoadTrivial),
      SILInstruction 7 (OtherInst [InstResult 6]),
      SILInstruction 8 (DeallocStackInst (InstResult 1)),
      SILInstruction 9 (TermInst [])]"

definition storeTakeStore :: SILFunction where
  "storeTakeStore = twoBlocks
     [SILInstruction 4 (StoreInst (SILArgument 0 1) (InstResult 1) StoreInit),
      SILInstruction 5 (LoadInst (InstResult 1) LoadTake),
      SILInstruction 6 (DestroyValueInst (InstResult 5)),
      SILInstruction 7 (StoreInst (SILArgument 0 0) (InstResult 1) StoreInit),
      SILInstruction 8 (DeallocStackInst (InstResult 1)),
      SILInstruction 9 (TermInst [])]"

definition copyLoads :: SILFunction where
  "copyLoads = twoBlocks
     [SILInstruction 4 (LoadInst (InstResult 1) LoadCopy),
      SILInstruction 5 (LoadInst (InstResult 1) LoadCopy),
      SILInstruction 6 (OtherInst [InstResult 4, InstResult 5]),
      SILInstruction 8 (DeallocStackInst (InstResult 1)),
      SILInstruction 9 (TermInst [])]"

text \<open>Block 1 stores to the slot and reads it, twice, and destroys another value.\<close>

definition storeLoadTwice :: SILFunction where
  "storeLoadTwice = twoBlocks
     [SILInstruction 4 (StoreInst (SILArgument 0 1) (InstResult 1) StoreInit),
      SILInstruction 5 (LoadInst (InstResult 1) LoadCopy),
      SILInstruction 6 (OtherInst [InstResult 5]),
      SILInstruction 7 (DestroyValueInst (InstResult 6)),
      SILInstruction 8 (LoadInst (InstResult 1) LoadTake),
      SILInstruction 9 (OtherInst [InstResult 8]),
      SILInstruction 10 (StoreInst (SILArgument 0 0) (InstResult 1) StoreInit),
      SILInstruction 11 (LoadInst (InstResult 1) LoadTake),
      SILInstruction 12 (OtherInst [InstResult 11]),
      SILInstruction 13 (DeallocStackInst (InstResult 1)),
      SILInstruction 14 (TermInst [])]"

text \<open>Block 1 reads the slot twice after its deallocation.\<close>

definition loadsAfterDealloc :: SILFunction where
  "loadsAfterDealloc = twoBlocks
     [SILInstruction 4 (DeallocStackInst (InstResult 1)),
      SILInstruction 5 (LoadInst (InstResult 1) LoadTrivial),
      SILInstruction 6 (LoadInst (InstResult 1) LoadTrivial),
      SILInstruction 7 (OtherInst [InstResult 5, InstResult 6]),
      SILInstruction 9 (TermInst [])]"



section \<open>Predicates on instructions\<close>

text \<open>What an instruction does to the slot \<open>ASI\<close>: it stores to it, loads directly
  from it, is a \<^verbatim>\<open>load [copy]\<close> directly from it, or stores its address as a value.\<close>

definition storesTo :: "InstId \<Rightarrow> SILInstructionKind \<Rightarrow> bool" where
  "storesTo ASI k = (case k of StoreInst _ dest _ \<Rightarrow> dest = InstResult ASI | _ \<Rightarrow> False)"

definition loadsDirectly :: "InstId \<Rightarrow> SILInstructionKind \<Rightarrow> bool" where
  "loadsDirectly ASI k = (case k of LoadInst op _ \<Rightarrow> op = InstResult ASI | _ \<Rightarrow> False)"

definition loadsCopy :: "InstId \<Rightarrow> SILInstructionKind \<Rightarrow> bool" where
  "loadsCopy ASI k = (k = LoadInst (InstResult ASI) LoadCopy)"

definition storesSlotAddress :: "InstId \<Rightarrow> SILInstructionKind \<Rightarrow> bool" where
  "storesSlotAddress ASI k = (case k of StoreInst src _ _ \<Rightarrow> src = InstResult ASI | _ \<Rightarrow> False)"

definition isDestroyValue :: "SILInstructionKind \<Rightarrow> bool" where
  "isDestroyValue k = (case k of DestroyValueInst _ \<Rightarrow> True | _ \<Rightarrow> False)"

definition isAllocStackKind :: "SILInstructionKind \<Rightarrow> bool" where
  "isAllocStackKind k = (case k of AllocStackInst _ \<Rightarrow> True | _ \<Rightarrow> False)"

text \<open>Instruction identifiers name one instruction each, the identifiers of the block
  \<open>BB\<close> are distinct, and every identifier in use is below the next free one.\<close>

definition wfIds :: "SILBasicBlock \<Rightarrow> SILFunction \<Rightarrow> bool" where
  "wfIds BB F =
     ((\<forall>b b'. \<forall>I\<in>set (getInsts F b). \<forall>I'\<in>set (getInsts F b'). instId I = instId I' \<longrightarrow> I = I')
      \<and> distinct (map instId (getInsts F BB))
      \<and> (\<forall>b. \<forall>I\<in>set (getInsts F b). instId I < nextId F))"

text \<open>
  What the pruning scan of \<open>BB\<close> for the slot \<open>ASI\<close> takes for granted: the identifiers
  are well formed, \<open>ASI\<close> names an \<^verbatim>\<open>alloc_stack\<close>, and no store of the block has the
  slot's address as the value it stores (a store takes an object, not an address).
\<close>

definition scannableBlock :: "InstId \<Rightarrow> SILBasicBlock \<Rightarrow> SILFunction \<Rightarrow> bool" where
  "scannableBlock ASI BB F =
     (wfIds BB F \<and> ASI < nextId F
      \<and> (\<forall>b. \<forall>I\<in>set (getInsts F b). instId I = ASI \<longrightarrow> isAllocStackKind (kind I))
      \<and> (\<forall>I\<in>set (getInsts F BB). \<not> storesSlotAddress ASI (kind I)))"

text \<open>The lowered destroy of a value neither stores to the slot nor loads from it.\<close>

definition destroyLeavesSlot :: "Externals \<Rightarrow> InstId \<Rightarrow> bool" where
  "destroyLeavesSlot X ASI =
     (\<forall>v. \<forall>k\<in>set (emitLoweredDestroyValue X v). \<not> storesTo ASI k \<and> \<not> loadsDirectly ASI k)"


text \<open>
  Two things the pruning scan can meet. It leaves a \<^verbatim>\<open>load [copy]\<close> of the slot in place
  when it knows no running value; and at a \<^verbatim>\<open>destroy_value\<close> of the running value it
  forgets the store it retained.
\<close>

definition leavesLoadCopy :: "InstId \<Rightarrow> SILInstruction \<Rightarrow> PruneState \<Rightarrow> bool" where
  "leavesLoadCopy ASI Inst st =
     (case st of (F, RunningVal, LastStore) \<Rightarrow>
        RunningVal = None \<and> loadsCopy ASI (kind Inst))"

definition forgetsLastStore :: "SILInstruction \<Rightarrow> PruneState \<Rightarrow> bool" where
  "forgetsLastStore Inst st =
     (case st of (F, RunningVal, LastStore) \<Rightarrow>
        LastStore \<noteq> None \<and>
        (case kind Inst of DestroyValueInst op \<Rightarrow> Some op = RunningVal | _ \<Rightarrow> False))"

text \<open>
  \<open>scanMeets P \<dots> todo st\<close>: the loop of \<^verbatim>\<open>promoteAllocationInBlock\<close>, run from the state
  \<open>st\<close> over the instructions \<open>todo\<close>, visits an instruction in a state for which \<open>P\<close>
  holds. It follows \<open>promoteAllocationInBlock_loop\<close> turn by turn.
\<close>

fun scanMeets ::
    "(SILInstruction \<Rightarrow> PruneState \<Rightarrow> bool) \<Rightarrow> Externals \<Rightarrow> nat \<Rightarrow> InstId \<Rightarrow> SILType
      \<Rightarrow> InstId list \<Rightarrow> PruneState \<Rightarrow> bool"
where
  "scanMeets P X fuel ASI ty [] st = False"
| "scanMeets P X fuel ASI ty (BBI # rest) st =
     (case findInst (fst st) BBI of
        None \<Rightarrow> False
      | Some (_, Inst) \<Rightarrow>
          P Inst st \<or>
          (case promoteAllocationInBlock_inst X fuel ASI ty Inst st of
             Inl e \<Rightarrow> False
           | Inr (st', True) \<Rightarrow> False
           | Inr (st', False) \<Rightarrow> scanMeets P X fuel ASI ty rest st'))"

section \<open>Invariants of the pruning scan\<close>

text \<open>
  An edit of the scan keeps an instruction \<open>I\<close> as \<open>I'\<close>: the identifier stays, and \<open>I'\<close>
  stores to the slot, loads from it, or destroys a value only if \<open>I\<close> did.
\<close>

definition pres :: "InstId \<Rightarrow> SILInstruction \<Rightarrow> SILInstruction \<Rightarrow> bool" where
  "pres ASI I I' =
     (instId I' = instId I
      \<and> (storesTo ASI (kind I') \<longrightarrow> storesTo ASI (kind I))
      \<and> (loadsDirectly ASI (kind I') \<longrightarrow> loadsDirectly ASI (kind I))
      \<and> (loadsCopy ASI (kind I') \<longrightarrow> loadsCopy ASI (kind I))
      \<and> (isDestroyValue (kind I') \<longrightarrow> isDestroyValue (kind I))
      \<and> (storesSlotAddress ASI (kind I') \<longrightarrow> storesSlotAddress ASI (kind I))
      \<and> (isAllocStackKind (kind I) \<longrightarrow> isAllocStackKind (kind I')))"

text \<open>
  How the scan changes a function: every instruction of the new function is the image
  of one of the old function in the same block, or is new; a new instruction does not
  store to the slot, and loads from it only if its identifier is in \<open>A\<close>.
\<close>

definition ev :: "InstId \<Rightarrow> InstId set \<Rightarrow> SILFunction \<Rightarrow> SILFunction \<Rightarrow> bool" where
  "ev ASI A F F' =
     (nextId F \<le> nextId F'
      \<and> (\<forall>b. \<forall>I'\<in>set (getInsts F' b).
            (\<exists>I\<in>set (getInsts F b). pres ASI I I')
            \<or> (nextId F \<le> instId I' \<and> \<not> storesTo ASI (kind I')
                \<and> (loadsDirectly ASI (kind I') \<longrightarrow> instId I' \<in> A))))"

text \<open>
  What holds of the instructions still to visit, \<open>todo\<close>: they exist, none stores the
  slot's address, and \<open>ASI\<close> names an \<^verbatim>\<open>alloc_stack\<close>.
\<close>

definition static :: "InstId \<Rightarrow> InstId list \<Rightarrow> SILFunction \<Rightarrow> bool" where
  "static ASI todo F =
     (ASI < nextId F \<and> (\<forall>c\<in>set todo. c < nextId F)
      \<and> (\<forall>b. \<forall>I\<in>set (getInsts F b). instId I = ASI \<longrightarrow> isAllocStackKind (kind I))
      \<and> (\<forall>b. \<forall>I\<in>set (getInsts F b). instId I \<in> set todo \<longrightarrow>
            \<not> storesSlotAddress ASI (kind I)))"

text \<open>A store to the slot in \<open>BB\<close> is still to visit, or it is \<open>LastStore\<close>.\<close>

definition storesInv :: "InstId \<Rightarrow> SILBasicBlock \<Rightarrow> InstId list \<Rightarrow> SILFunction \<Rightarrow> InstId option \<Rightarrow> bool" where
  "storesInv ASI BB todo F LS =
     (\<forall>I\<in>set (getInsts F BB). storesTo ASI (kind I) \<longrightarrow> instId I \<in> set todo \<or> LS = Some (instId I))"

text \<open>A load from the slot in \<open>BB\<close> is still to visit, or it is the one load that the
  scan left, which is there only when \<open>RunningVal\<close> is set.\<close>

definition loadsInv :: "InstId \<Rightarrow> SILBasicBlock \<Rightarrow> InstId list \<Rightarrow> SILFunction \<Rightarrow> SILValue option \<Rightarrow> bool" where
  "loadsInv ASI BB todo F RV =
     (\<exists>l. \<forall>I\<in>set (getInsts F BB). loadsDirectly ASI (kind I) \<longrightarrow>
              instId I \<in> set todo \<or> (RV \<noteq> None \<and> instId I = l))"

text \<open>What every state of the scan satisfies.\<close>

definition scanInv :: "InstId \<Rightarrow> SILBasicBlock \<Rightarrow> InstId list \<Rightarrow> PruneState \<Rightarrow> bool" where
  "scanInv ASI BB todo st =
     (case st of (F, RV, LS) \<Rightarrow>
        wfIds BB F \<and> static ASI todo F \<and> RV \<noteq> Some (InstResult ASI))"
section \<open>Capture analysis: proofs\<close>

lemma isAddressForLoad_flag:
  "isAddressForLoad u sb g = (ok, sb', g') \<Longrightarrow> g \<Longrightarrow> g'"
  "isAddressForLoad_uses us sb g = (ok, sb', g') \<Longrightarrow> g \<Longrightarrow> g'"
proof (induction u sb g and us sb g arbitrary: ok sb' g' and ok sb' g'
       rule: isAddressForLoad_isAddressForLoad_uses.induct)
  case (1 I p us singleBlock hasGuaranteedOwnership)
  show ?case
  proof (cases "kind I")
    case (AddrProjectionInst k n v)
    with "1.prems" "1.IH"[OF AddrProjectionInst] show ?thesis
      by (cases "k = Struct \<or> k = Tuple") auto
  qed (use "1.prems" in \<open>auto split: if_splits\<close>)
next
  case (2 singleBlock hasGuaranteedOwnership)
  then show ?case by simp
next
  case (3 II rest singleBlock hasGuaranteedOwnership)
  then show ?case
    by (fastforce simp: Let_def split: prod.splits bool.splits)
qed

lemma takesThroughField_flag:
  "takesThroughField g u \<Longrightarrow> g \<longrightarrow> g' \<Longrightarrow> takesThroughField g' u"
  "takesThroughField_uses g us \<Longrightarrow> g \<longrightarrow> g' \<Longrightarrow> takesThroughField_uses g' us"
proof (induction g u and g us arbitrary: g' and g'
       rule: takesThroughField_takesThroughField_uses.induct)
  case (1 g I p us)
  then show ?case by (cases "kind I") auto
next
  case (2 g)
  then show ?case by simp
next
  case (3 g u us)
  then show ?case by auto
qed

lemma takesThroughField_not_for_load:
  "takesThroughField g u \<Longrightarrow> \<not> fst (isAddressForLoad u sb g)"
  "takesThroughField_uses g us \<Longrightarrow> \<not> fst (isAddressForLoad_uses us sb g)"
proof (induction u sb g and us sb g rule: isAddressForLoad_isAddressForLoad_uses.induct)
  case (1 I p us singleBlock hasGuaranteedOwnership)
  show ?case
  proof (cases "kind I")
    case (AddrProjectionInst k n v)
    with "1.prems" "1.IH"[OF AddrProjectionInst] show ?thesis by auto
  qed (use "1.prems" in \<open>auto split: if_splits\<close>)
next
  case (2 singleBlock hasGuaranteedOwnership)
  then show ?case by simp
next
  case (3 II rest singleBlock hasGuaranteedOwnership)
  let ?sb = "if Some (getParent II) \<noteq> singleBlock then None else singleBlock"
  obtain ok sb' g' where r: "isAddressForLoad II ?sb hasGuaranteedOwnership = (ok, sb', g')"
    by (cases "isAddressForLoad II ?sb hasGuaranteedOwnership") auto
  show ?case
  proof (cases ok)
    case False
    with r show ?thesis by (simp add: Let_def)
  next
    case True
    with r "3.IH"(1)[OF refl] have "\<not> takesThroughField hasGuaranteedOwnership II" by auto
    with "3.prems" have t: "takesThroughField_uses hasGuaranteedOwnership rest" by simp
    have "hasGuaranteedOwnership \<longrightarrow> g'" using isAddressForLoad_flag(1)[OF r] by blast
    with t have "takesThroughField_uses g' rest" by (rule takesThroughField_flag(2))
    with "3.IH"(2)[OF refl r[symmetric]] True r show ?thesis by (simp add: Let_def)
  qed
qed

lemma takesThroughField_captured_loop:
  "takesThroughField_uses False uses \<Longrightarrow> fst (isCaptured_loop l ASI uses sb)"
proof (induction uses arbitrary: sb)
  case Nil
  then show ?case by simp
next
  case (Cons II rest)
  let ?sb = "if Some (getParent II) \<noteq> sb then None else sb"
  obtain ok sb' g' where r: "isAddressForLoad II ?sb False = (ok, sb', g')"
    by (cases "isAddressForLoad II ?sb False") auto
  show ?case
  proof (cases "takesThroughField False II")
    case True
    then have nok: "\<not> ok" using takesThroughField_not_for_load(1)[OF True, of ?sb] r by simp
    from True obtain k n v where "kind (getUser II) = AddrProjectionInst k n v"
      by (cases II; cases "kind (getUser II)") auto
    with nok r show ?thesis by (simp add: Let_def)
  next
    case False
    with Cons.prems have "takesThroughField_uses False rest" by simp
    then have "\<And>sb. fst (isCaptured_loop l ASI rest sb)" by (rule Cons.IH)
    then show ?thesis using r
      by (cases ok; cases "kind (getUser II)") (auto simp: Let_def)
  qed
qed

lemma takesThroughField_captured:
  "takesThroughField_uses False uses \<Longrightarrow> isCaptured l ASI p uses b = (True, b)"
  using takesThroughField_captured_loop[of uses l ASI "Some p"]
  by (auto simp: isCaptured_def split: prod.splits bool.splits)

lemma visitedUses_hd: "set (visitedUses u) = insert u (set (tl (visitedUses u)))"
  by (cases u) simp

lemma not_address_for_load:
  "(\<forall>v q. kind (getUser u) \<noteq> LoadInst v q) \<Longrightarrow>
   (\<forall>k n v. kind (getUser u) \<noteq> AddrProjectionInst k n v) \<Longrightarrow>
   isAddressForLoad u sb g = (False, sb, g) \<and> visitedUses u = [u]"
  by (cases u; cases "kind (getUser u)") auto

lemma singleBlock_walk:
  "isAddressForLoad u sb g = (True, sb', g') \<Longrightarrow>
     sb' = (if \<forall>v\<in>set (tl (visitedUses u)). Some (getParent v) = sb then sb else None)"
  "isAddressForLoad_uses us sb g = (True, sb', g') \<Longrightarrow>
     sb' = (if \<forall>v\<in>set (concat (map visitedUses us)). Some (getParent v) = sb then sb else None)"
proof (induction u sb g and us sb g arbitrary: sb' g' and sb' g'
       rule: isAddressForLoad_isAddressForLoad_uses.induct)
  case (1 I p us singleBlock hasGuaranteedOwnership)
  show ?case
  proof (cases "kind I")
    case (AddrProjectionInst k n v)
    with "1.prems" "1.IH"[OF AddrProjectionInst] show ?thesis by simp
  qed (use "1.prems" in \<open>auto split: if_splits\<close>)
next
  case (2 singleBlock hasGuaranteedOwnership)
  then show ?case by simp
next
  case (3 II rest singleBlock hasGuaranteedOwnership)
  let ?sb = "if Some (getParent II) \<noteq> singleBlock then None else singleBlock"
  obtain ok sb1 g1 where r: "isAddressForLoad II ?sb hasGuaranteedOwnership = (ok, sb1, g1)"
    by (cases "isAddressForLoad II ?sb hasGuaranteedOwnership") auto
  with "3.prems" have ok: ok by (cases ok) (auto simp: Let_def)
  from "3.prems" r ok have rest: "isAddressForLoad_uses rest sb1 g1 = (True, sb', g')"
    by (simp add: Let_def)
  have a: "sb1 = (if \<forall>v\<in>set (tl (visitedUses II)). Some (getParent v) = ?sb then ?sb else None)"
    using "3.IH"(1)[OF refl] r ok by simp
  have b: "sb' = (if \<forall>v\<in>set (concat (map visitedUses rest)). Some (getParent v) = sb1
                  then sb1 else None)"
    using "3.IH"(2)[OF refl r[symmetric]] ok rest by simp
  show ?case
    unfolding b a using visitedUses_hd[of II]
    by (cases singleBlock) auto
qed

lemma singleBlock_loop:
  "isCaptured_loop l ASI uses sb = (False, sb') \<Longrightarrow>
     sb' = (if \<forall>v\<in>set (concat (map visitedUses uses)). Some (getParent v) = sb then sb else None)"
proof (induction uses arbitrary: sb)
  case Nil
  then show ?case by simp
next
  case (Cons II rest)
  let ?sb = "if Some (getParent II) \<noteq> sb then None else sb"
  obtain ok sb1 g1 where r: "isAddressForLoad II ?sb False = (ok, sb1, g1)"
    by (cases "isAddressForLoad II ?sb False") auto
  have rest: "isCaptured_loop l ASI rest sb1 = (False, sb')"
    using Cons.prems r
    by (cases ok; cases "kind (getUser II)") (auto simp: Let_def split: if_splits)
  have a: "sb1 = (if \<forall>v\<in>set (tl (visitedUses II)). Some (getParent v) = ?sb then ?sb else None)"
  proof (cases ok)
    case True
    with r have "isAddressForLoad II ?sb False = (True, sb1, g1)" by simp
    then show ?thesis by (rule singleBlock_walk(1))
  next
    case False
    with Cons.prems r have "(\<forall>v q. kind (getUser II) \<noteq> LoadInst v q) \<and>
        (\<forall>k n v. kind (getUser II) \<noteq> AddrProjectionInst k n v)"
      by (cases II; cases "kind (getUser II)") (auto simp: Let_def split: if_splits)
    then have "isAddressForLoad II ?sb False = (False, ?sb, False) \<and> visitedUses II = [II]"
      using not_address_for_load by blast
    with r show ?thesis by simp
  qed
  have b: "sb' = (if \<forall>v\<in>set (concat (map visitedUses rest)). Some (getParent v) = sb1
                  then sb1 else None)"
    using Cons.IH[OF rest] .
  show ?case
    unfolding b a using visitedUses_hd[of II]
    by (cases sb) auto
qed

section \<open>Phi placement: proofs\<close>

lemma findDeallocation_filter:
  "findDeallocation uses DSI =
     (case DSI of
        None \<Rightarrow> (case filter isDealloc uses of [D] \<Rightarrow> Some D | _ \<Rightarrow> None)
      | Some D0 \<Rightarrow> (case filter isDealloc uses of [] \<Rightarrow> Some D0 | _ \<Rightarrow> None))"
proof (induction uses arbitrary: DSI)
  case Nil
  then show ?case by (simp split: option.splits)
next
  case (Cons UI rest)
  show ?case
    by (cases "kind (getUser UI)"; cases DSI)
       (simp_all add: Cons.IH isDealloc_def split: list.splits)
qed

lemma promoterDSI_unique:
  "promoterDSI uses = (case filter isDealloc uses of [D] \<Rightarrow> Some D | _ \<Rightarrow> None)"
  by (simp add: promoterDSI_def findDeallocation_filter)

lemma phiBlocksOk_snoc:
  "phiBlocksOk DT asiParent DSI (bs @ [b]) =
     (phiBlocksOk DT asiParent DSI bs \<and> dominates DT asiParent b \<and>
      (case DSI of None \<Rightarrow> True | Some D \<Rightarrow> \<not> properlyDominates DT (getParent D) b))"
  by (auto simp: phiBlocksOk_def)

lemma inspectSuccessors_ok:
  assumes "\<forall>b n. getNode DT b = Some n \<longrightarrow> getBlock n = b"
  shows "inspectSuccessors DT lv asiParent DSI Node RootLevel succs st = Inr st' \<Longrightarrow>
     phiBlocksOk DT asiParent DSI (phiBlocks st) \<Longrightarrow> phiBlocksOk DT asiParent DSI (phiBlocks st')"
proof (induction succs arbitrary: st)
  case Nil
  then show ?case by simp
next
  case (Cons Succ rest)
  show ?case
  proof (cases "getNode DT Succ")
    case None
    with Cons.prems show ?thesis by simp
  next
    case (Some SuccNode)
    then have blk: "getBlock SuccNode = Succ" using assms by blast
    have "\<exists>st1. inspectSuccessors DT lv asiParent DSI Node RootLevel rest st1 = Inr st'
             \<and> phiBlocksOk DT asiParent DSI (phiBlocks st1)"
      using Cons.prems Some blk
      by (cases DSI) (auto simp: Let_def phiBlocksOk_snoc split: if_splits)
    then show ?thesis using Cons.IH by blast
  qed
qed

lemma walkSubtree_ok:
  assumes "\<forall>b n. getNode DT b = Some n \<longrightarrow> getBlock n = b"
  shows "walkSubtree fuel DT lv succs asiParent DSI RootLevel wl st = Inr st' \<Longrightarrow>
     phiBlocksOk DT asiParent DSI (phiBlocks st) \<Longrightarrow> phiBlocksOk DT asiParent DSI (phiBlocks st')"
proof (induction fuel arbitrary: wl st)
  case 0
  then show ?case by (cases wl) auto
next
  case (Suc fuel)
  show ?case
  proof (cases wl)
    case Nil
    with Suc.prems show ?thesis by simp
  next
    case (Cons N ns)
    let ?Node = "last (N # ns)"
    from Suc.prems(1) Cons obtain st1 where
      i: "inspectSuccessors DT lv asiParent DSI ?Node RootLevel (succs (getBlock ?Node)) st = Inr st1"
      and w: "walkSubtree fuel DT lv succs asiParent DSI RootLevel
            (butlast (N # ns) @ filter (\<lambda>C. C \<notin> set (visited st1)) (getChildren DT ?Node)) st1
              = Inr st'"
      by (auto simp: Let_def split: sum.splits simp del: last.simps butlast.simps)
    from inspectSuccessors_ok[OF assms i Suc.prems(2)] Suc.IH[OF w] show ?thesis by blast
  qed
qed

lemma placePhis_ok:
  assumes "\<forall>b n. getNode DT b = Some n \<longrightarrow> getBlock n = b"
  shows "placePhis fuel DT lv succs asiParent DSI st = Inr st' \<Longrightarrow>
     phiBlocksOk DT asiParent DSI (phiBlocks st) \<Longrightarrow> phiBlocksOk DT asiParent DSI (phiBlocks st')"
proof (induction fuel arbitrary: st)
  case 0
  then show ?case by (auto split: option.splits)
next
  case (Suc fuel)
  show ?case
  proof (cases "pqTop (pqueue st)")
    case None
    with Suc.prems show ?thesis by simp
  next
    case (Some RootPair)
    with Suc.prems(1) obtain st1 where
      w: "walkSubtree fuel DT lv succs asiParent DSI (snd RootPair) [fst RootPair]
            (st\<lparr>pqueue := remove1 RootPair (pqueue st)\<rparr>) = Inr st1"
      and p: "placePhis fuel DT lv succs asiParent DSI st1 = Inr st'"
      by (auto split: sum.splits)
    have "phiBlocksOk DT asiParent DSI (phiBlocks (st\<lparr>pqueue := remove1 RootPair (pqueue st)\<rparr>))"
      using Suc.prems(2) by simp
    from walkSubtree_ok[OF assms w this] Suc.IH[OF p] show ?thesis by blast
  qed
qed

lemma computePhiBlocks_ok:
  assumes "\<forall>b n. getNode DT b = Some n \<longrightarrow> getBlock n = b"
    and "computePhiBlocks fuel DT lv succs asiParent DSI uses = Inr phis"
  shows "phiBlocksOk DT asiParent DSI phis"
proof -
  from assms(2) obtain st' where
    p: "placePhis fuel DT lv succs asiParent DSI
          \<lparr>visited = [], phiBlocks = [], pqueue = seedQueue DT lv uses\<rparr> = Inr st'"
    and e: "phis = phiBlocks st'"
    by (auto simp: computePhiBlocks_def split: sum.splits)
  have "phiBlocksOk DT asiParent DSI
          (phiBlocks \<lparr>visited = [], phiBlocks = [], pqueue = seedQueue DT lv uses\<rparr>)"
    by (simp add: phiBlocksOk_def)
  from placePhis_ok[OF assms(1) p this] e show ?thesis by simp
qed

section \<open>The scans and the pass: proofs\<close>

lemma findInst_instId: "findInst F c = Some (b, I) \<Longrightarrow> instId I = c"
  by (metis (mono_tags, lifting) find_Some_iff findInst_def snd_conv)

lemma direct_load_from_stack:
  "0 < fuel \<Longrightarrow> kind Inst = LoadInst (InstResult ASI) q \<Longrightarrow>
   isLoadFromStack fuel F Inst ASI = Inr True"
  by (cases fuel) (auto simp: isLoadFromStack_def)

lemma replaceLoad_direct:
  assumes "0 < fuel" and "findInst F LI = Some (BB, Inst)"
    and "kind Inst = LoadInst (InstResult ASI) q"
  shows "replaceLoad X fuel LI val ASI F =
     (if q = LoadCopy
      then Inr (eraseFromParent LI (replaceAllUsesWith (InstResult LI) (InstResult (nextId F))
                  (fst (createBefore LI (CopyValueInst val) F))))
      else if hasOwnership X \<and> isGuaranteed X val then Inl AssertionFailure
      else Inr (eraseFromParent LI (replaceAllUsesWith (InstResult LI) val F)))"
  using assms by (cases fuel) (auto simp: replaceLoad_def createBefore_def)

lemma insertAfter_split:
  "i \<notin> instId ` set pre \<Longrightarrow> instId A = i \<Longrightarrow>
   insertAfter i n (pre @ A # post) = pre @ A # n # post"
  by (induction pre) auto









section \<open>The pruning scan keeps its invariant\<close>

lemma pres_refl: "pres ASI I I"
  by (simp add: pres_def)

lemma pres_trans: "pres ASI I J \<Longrightarrow> pres ASI J K \<Longrightarrow> pres ASI I K"
  by (auto simp: pres_def)

lemma ev_refl: "ev ASI A F F"
  using pres_refl by (auto simp: ev_def)

lemma ev_trans:
  assumes "ev ASI A F G" and "ev ASI B G H"
  shows "ev ASI (A \<union> B) F H"
  unfolding ev_def
proof (intro conjI allI ballI)
  show "nextId F \<le> nextId H" using assms by (auto simp: ev_def)
  fix b K assume K: "K \<in> set (getInsts H b)"
  from assms(2) K consider
      J where "J \<in> set (getInsts G b)" "pres ASI J K"
    | "nextId G \<le> instId K" "\<not> storesTo ASI (kind K)" "loadsDirectly ASI (kind K) \<longrightarrow> instId K \<in> B"
    unfolding ev_def by blast
  then show "(\<exists>I\<in>set (getInsts F b). pres ASI I K) \<or>
         (nextId F \<le> instId K \<and> \<not> storesTo ASI (kind K) \<and>
          (loadsDirectly ASI (kind K) \<longrightarrow> instId K \<in> A \<union> B))"
  proof cases
    case 1
    from assms(1) 1(1) consider
        I where "I \<in> set (getInsts F b)" "pres ASI I J"
      | "nextId F \<le> instId J" "\<not> storesTo ASI (kind J)" "loadsDirectly ASI (kind J) \<longrightarrow> instId J \<in> A"
      unfolding ev_def by blast
    then show ?thesis
    proof cases
      case 1
      with \<open>pres ASI J K\<close> show ?thesis using pres_trans by blast
    next
      case 2
      with \<open>pres ASI J K\<close> show ?thesis by (auto simp: pres_def)
    qed
  next
    case 2
    with assms(1) show ?thesis by (auto simp: ev_def)
  qed
qed

lemma ev_mono: "ev ASI A F G \<Longrightarrow> A \<subseteq> B \<Longrightarrow> ev ASI B F G"
  unfolding ev_def by blast

lemma ev_trans0: "ev ASI {} F G \<Longrightarrow> ev ASI {} G H \<Longrightarrow> ev ASI {} F H"
  using ev_trans[of ASI "{}" F G "{}" H] by simp

lemma getInsts_erase [simp]:
  "getInsts (eraseFromParent i F) b = filter (\<lambda>I. instId I \<noteq> i) (getInsts F b)"
  by (simp add: eraseFromParent_def)

lemma nextId_erase [simp]: "nextId (eraseFromParent i F) = nextId F"
  by (simp add: eraseFromParent_def)

lemma getInsts_rauw [simp]:
  "getInsts (replaceAllUsesWith old new F) b =
     map (\<lambda>I. SILInstruction (instId I) (mapOperands (\<lambda>v. if v = old then new else v) (kind I)))
       (getInsts F b)"
  by (simp add: replaceAllUsesWith_def)

lemma nextId_rauw [simp]: "nextId (replaceAllUsesWith old new F) = nextId F"
  by (simp add: replaceAllUsesWith_def)

lemma getInsts_setKind [simp]:
  "getInsts (setKind i k F) b = map (\<lambda>I. if instId I = i then SILInstruction i k else I) (getInsts F b)"
  by (simp add: setKind_def)

lemma nextId_setKind [simp]: "nextId (setKind i k F) = nextId F"
  by (simp add: setKind_def)

lemma getInsts_create [simp]:
  "getInsts (fst (createBefore pt k F)) b = insertBefore pt (SILInstruction (nextId F) k) (getInsts F b)"
  by (simp add: createBefore_def)

lemma nextId_create [simp]: "nextId (fst (createBefore pt k F)) = Suc (nextId F)"
  by (simp add: createBefore_def)

lemma snd_create [simp]: "snd (createBefore pt k F) = InstResult (nextId F)"
  by (simp add: createBefore_def)

lemma set_insertBefore: "set (insertBefore pt N xs) \<subseteq> insert N (set xs)"
  by (induction xs) auto

lemma set_insertBefore_sup: "set xs \<subseteq> set (insertBefore pt N xs)"
  by (induction xs) auto

lemma distinct_insertBefore:
  "distinct (map instId xs) \<Longrightarrow> instId N \<notin> instId ` set xs \<Longrightarrow>
   distinct (map instId (insertBefore pt N xs))"
proof (induction xs)
  case Nil
  then show ?case by simp
next
  case (Cons I xs)
  then show ?case
    using set_insertBefore[of pt N xs] by auto
qed

lemma wfIds_erase: "wfIds BB F \<Longrightarrow> wfIds BB (eraseFromParent i F)"
  by (auto simp: wfIds_def distinct_map_filter)

lemma wfIds_map:
  assumes "wfIds BB F" and "\<And>I. instId (f I) = instId I"
    and "\<And>b. getInsts F' b = map f (getInsts F b)" and "nextId F' = nextId F"
  shows "wfIds BB F'"
proof -
  have m: "map instId (map f xs) = map instId xs" for xs
    using assms(2) by (induction xs) auto
  have u: "I = I'" if "I \<in> set (getInsts F b)" "I' \<in> set (getInsts F b')" "instId I = instId I'"
    for b b' I I'
    using assms(1) that unfolding wfIds_def by blast
  have 1: "J = J'" if "J \<in> set (getInsts F' b)" "J' \<in> set (getInsts F' b')" "instId J = instId J'"
    for b b' J J'
  proof -
    from that(1) obtain I where I: "I \<in> set (getInsts F b)" "J = f I" by (auto simp: assms(3))
    from that(2) obtain I' where I': "I' \<in> set (getInsts F b')" "J' = f I'" by (auto simp: assms(3))
    from that(3) I I' have "instId I = instId I'" by (simp add: assms(2))
    with u I I' show ?thesis by blast
  qed
  have "map instId (getInsts F' BB) = map instId (getInsts F BB)"
    unfolding assms(3) by (rule m)
  then have 2: "distinct (map instId (getInsts F' BB))"
    using assms(1) by (simp add: wfIds_def)
  have 3: "instId J < nextId F'" if "J \<in> set (getInsts F' b)" for b J
  proof -
    from that obtain I where "I \<in> set (getInsts F b)" "J = f I" by (auto simp: assms(3))
    with assms(1,2,4) show ?thesis by (auto simp: wfIds_def)
  qed
  from 1 2 3 show ?thesis unfolding wfIds_def by blast
qed

lemma wfIds_rauw: "wfIds BB F \<Longrightarrow> wfIds BB (replaceAllUsesWith old new F)"
  by (rule wfIds_map[where f = "\<lambda>I. SILInstruction (instId I) (mapOperands (\<lambda>v. if v = old then new else v) (kind I))"]) auto

lemma wfIds_setKind: "wfIds BB F \<Longrightarrow> wfIds BB (setKind i k F)"
  by (rule wfIds_map[where f = "\<lambda>I. if instId I = i then SILInstruction i k else I"]) auto

lemma wfIds_create:
  assumes "wfIds BB F"
  shows "wfIds BB (fst (createBefore pt k F))"
proof -
  let ?N = "SILInstruction (nextId F) k"
  let ?F = "fst (createBefore pt k F)"
  have u: "I = I'" if "I \<in> set (getInsts F b)" "I' \<in> set (getInsts F b')" "instId I = instId I'"
    for b b' I I'
    using assms that unfolding wfIds_def by blast
  have n: "instId I < nextId F" if "I \<in> set (getInsts F b)" for b I
    using assms that unfolding wfIds_def by blast
  have s: "J = ?N \<or> J \<in> set (getInsts F b)" if "J \<in> set (getInsts ?F b)" for b J
    using that set_insertBefore[of pt ?N "getInsts F b"] by auto
  have 1: "J = J'" if "J \<in> set (getInsts ?F b)" "J' \<in> set (getInsts ?F b')" "instId J = instId J'"
    for b b' J J'
  proof -
    from s[OF that(1)] s[OF that(2)] show ?thesis
    proof (elim disjE)
      assume "J \<in> set (getInsts F b)" "J' \<in> set (getInsts F b')"
      with that(3) u show ?thesis by blast
    next
      assume "J = ?N" "J' \<in> set (getInsts F b')"
      with that(3) n[of J' b'] show ?thesis by simp
    next
      assume "J \<in> set (getInsts F b)" "J' = ?N"
      with that(3) n[of J b] show ?thesis by simp
    qed simp
  qed
  have "instId ?N \<notin> instId ` set (getInsts F BB)"
    using n[of _ BB] by force
  then have 2: "distinct (map instId (getInsts ?F BB))"
    using assms by (auto simp: wfIds_def intro!: distinct_insertBefore)
  have 3: "instId J < nextId ?F" if "J \<in> set (getInsts ?F b)" for b J
    using s[OF that] n[of J b] by (auto simp: less_Suc_eq)
  from 1 2 3 show ?thesis unfolding wfIds_def by blast
qed

lemma pres_mapOperands:
  assumes "\<And>v. f v = InstResult ASI \<Longrightarrow> v = InstResult ASI"
  shows "pres ASI I (SILInstruction (instId I) (mapOperands f (kind I)))"
  using assms
  by (cases "kind I")
     (auto simp: pres_def storesTo_def loadsDirectly_def loadsCopy_def isDestroyValue_def
                 storesSlotAddress_def isAllocStackKind_def)

lemma ev_erase: "ev ASI {} F (eraseFromParent i F)"
  using pres_refl by (auto simp: ev_def)

lemma ev_rauw:
  assumes "new \<noteq> InstResult ASI"
  shows "ev ASI {} F (replaceAllUsesWith old new F)"
proof -
  have "pres ASI I (SILInstruction (instId I)
          (mapOperands (\<lambda>v. if v = old then new else v) (kind I)))" for I
    by (rule pres_mapOperands) (use assms in \<open>auto split: if_splits\<close>)
  then show ?thesis by (auto simp: ev_def)
qed

lemma ev_setKind:
  assumes "\<And>b I. I \<in> set (getInsts F b) \<Longrightarrow> instId I = i \<Longrightarrow> pres ASI I (SILInstruction i k)"
  shows "ev ASI {} F (setKind i k F)"
  unfolding ev_def
proof (intro conjI allI ballI)
  show "nextId F \<le> nextId (setKind i k F)" by simp
  fix b J assume "J \<in> set (getInsts (setKind i k F) b)"
  then obtain I where I: "I \<in> set (getInsts F b)"
    and J: "J = (if instId I = i then SILInstruction i k else I)" by auto
  then have "pres ASI I J" using assms pres_refl by auto
  with I show "(\<exists>I\<in>set (getInsts F b). pres ASI I J) \<or>
         (nextId F \<le> instId J \<and> \<not> storesTo ASI (kind J) \<and>
          (loadsDirectly ASI (kind J) \<longrightarrow> instId J \<in> {}))" by blast
qed

lemma ev_create:
  assumes "\<not> storesTo ASI k" and "loadsDirectly ASI k \<longrightarrow> nextId F \<in> A"
  shows "ev ASI A F (fst (createBefore pt k F))"
  unfolding ev_def
proof (intro conjI allI ballI)
  show "nextId F \<le> nextId (fst (createBefore pt k F))" by simp
  fix b J assume "J \<in> set (getInsts (fst (createBefore pt k F)) b)"
  then have "J = SILInstruction (nextId F) k \<or> J \<in> set (getInsts F b)"
    using set_insertBefore[of pt "SILInstruction (nextId F) k" "getInsts F b"] by auto
  then show "(\<exists>I\<in>set (getInsts F b). pres ASI I J) \<or>
         (nextId F \<le> instId J \<and> \<not> storesTo ASI (kind J) \<and>
          (loadsDirectly ASI (kind J) \<longrightarrow> instId J \<in> A))"
    using assms pres_refl by auto
qed

lemma ev_create0:
  "\<not> storesTo ASI k \<Longrightarrow> \<not> loadsDirectly ASI k \<Longrightarrow> ev ASI {} F (fst (createBefore pt k F))"
  by (rule ev_create) auto

lemma projectValue_props:
  assumes "projectValue X LI ps val bs F = (F1, val1, bs1)"
  shows "ev ASI {} F F1 \<and> (wfIds BB F \<longrightarrow> wfIds BB F1)
       \<and> (val1 = val \<or> (\<exists>n\<ge>nextId F. val1 = InstResult n))"
  using assms
proof (induction ps arbitrary: val bs F)
  case Nil
  then show ?case by (simp add: ev_refl)
next
  case (Cons P ps)
  show ?case
  proof (cases "kind P")
    case (AddrProjectionInst k idx op)
    show ?thesis
    proof (cases "(k = Struct \<or> k = Tuple) \<and> beginBorrowNeeded X val")
      case True
      let ?Fa = "fst (createBefore LI (BeginBorrowInst val) F)"
      let ?Fb = "fst (createBefore LI (ObjectProjectionInst k idx (InstResult (nextId F))) ?Fa)"
      from Cons.prems AddrProjectionInst True
      have r: "projectValue X LI ps (InstResult (Suc (nextId F))) (bs @ [InstResult (nextId F)]) ?Fb
                = (F1, val1, bs1)"
        by (simp add: createBefore_def split: prod.splits)
      from Cons.IH[OF r] have ih: "ev ASI {} ?Fb F1" "wfIds BB ?Fb \<longrightarrow> wfIds BB F1"
        "val1 = InstResult (Suc (nextId F)) \<or> (\<exists>n\<ge>nextId ?Fb. val1 = InstResult n)"
        by auto
      have e: "ev ASI {} F ?Fb"
        by (rule ev_trans0[of _ _ ?Fa]; rule ev_create0)
           (simp_all add: storesTo_def loadsDirectly_def)
      have w: "wfIds BB F \<longrightarrow> wfIds BB ?Fb" by (simp add: wfIds_create)
      from ih(3) have v: "\<exists>n\<ge>nextId F. val1 = InstResult n"
        by (auto intro: exI[of _ "Suc (nextId F)"])
      from ev_trans0[OF e ih(1)] w ih(2) v show ?thesis by blast
    next
      case False
      let ?Fb = "fst (createBefore LI (ObjectProjectionInst k idx val) F)"
      from Cons.prems AddrProjectionInst False
      have r: "projectValue X LI ps (InstResult (nextId F)) bs ?Fb = (F1, val1, bs1)"
        by (auto simp: createBefore_def split: prod.splits)
      from Cons.IH[OF r] have ih: "ev ASI {} ?Fb F1" "wfIds BB ?Fb \<longrightarrow> wfIds BB F1"
        "val1 = InstResult (nextId F) \<or> (\<exists>n\<ge>nextId ?Fb. val1 = InstResult n)"
        by auto
      have e: "ev ASI {} F ?Fb"
        by (rule ev_create0) (simp_all add: storesTo_def loadsDirectly_def)
      have w: "wfIds BB F \<longrightarrow> wfIds BB ?Fb" by (simp add: wfIds_create)
      from ih(3) have v: "\<exists>n\<ge>nextId F. val1 = InstResult n"
        by (auto intro: exI[of _ "nextId F"])
      from ev_trans0[OF e ih(1)] w ih(2) v show ?thesis by blast
    qed
  qed (use Cons.prems in \<open>auto simp: ev_refl\<close>)
qed

lemma endBorrows_props:
  "ev ASI {} F (endBorrows LI bs F) \<and> (wfIds BB F \<longrightarrow> wfIds BB (endBorrows LI bs F))"
proof (induction bs arbitrary: F)
  case Nil
  then show ?case by (simp add: ev_refl)
next
  case (Cons b bs)
  let ?Fa = "fst (createBefore LI (EndBorrowInst b) F)"
  have e: "ev ASI {} F ?Fa"
    by (rule ev_create0) (simp_all add: storesTo_def loadsDirectly_def)
  from Cons[of ?Fa] ev_trans0[OF e] wfIds_create[of BB F] show ?case by auto
qed

lemma createAllBefore_props:
  assumes "\<And>k. k \<in> set ks \<Longrightarrow> \<not> storesTo ASI k \<and> \<not> loadsDirectly ASI k"
  shows "ev ASI {} F (createAllBefore pt ks F) \<and> (wfIds BB F \<longrightarrow> wfIds BB (createAllBefore pt ks F))"
  using assms
proof (induction ks arbitrary: F)
  case Nil
  then show ?case by (simp add: ev_refl)
next
  case (Cons k ks)
  let ?Fa = "fst (createBefore pt k F)"
  have e: "ev ASI {} F ?Fa"
    by (rule ev_create0) (use Cons.prems in auto)
  from Cons.IH[of ?Fa] Cons.prems ev_trans0[OF e] wfIds_create[of BB F] show ?case by auto
qed

lemma eraseDeadProjections_props:
  "ev ASI {} F (eraseDeadProjections ps F)
   \<and> (wfIds BB F \<longrightarrow> wfIds BB (eraseDeadProjections ps F))
   \<and> (\<forall>b. set (getInsts (eraseDeadProjections ps F) b) \<subseteq> set (getInsts F b))"
proof (induction ps arbitrary: F)
  case Nil
  then show ?case by (simp add: ev_refl)
next
  case (Cons P ps)
  show ?case
  proof (cases "use_empty F (InstResult (instId P))")
    case True
    let ?Fa = "eraseFromParent (instId P) F"
    from Cons[of ?Fa] ev_trans0[OF ev_erase[of ASI F "instId P"]] wfIds_erase[of BB F]
    show ?thesis using True by auto
  next
    case False
    then show ?thesis by (simp add: ev_refl)
  qed
qed

lemma ev_nextId: "ev ASI A F F' \<Longrightarrow> nextId F \<le> nextId F'"
  by (simp add: ev_def)

lemma replaceLoad_Inr:
  assumes "replaceLoad X fuel LI val ASI F = Inr F'"
  obtains b I op q ps F1 val1 bvs where
    "findInst F LI = Some (b, I)" "kind I = LoadInst op q"
    "projectionPath fuel F op ASI = Inr (Some ps)"
    "projectValue X LI (rev ps) val [] F = (F1, val1, bvs)"
    "F' = eraseDeadProjections ps (eraseFromParent LI (endBorrows LI bvs
            (replaceAllUsesWith (InstResult LI)
               (if q = LoadCopy then InstResult (nextId F1) else val1)
               (if q = LoadCopy then fst (createBefore LI (CopyValueInst val1) F1) else F1))))"
proof (cases "findInst F LI")
  case None
  with assms show ?thesis by (simp add: replaceLoad_def)
next
  case (Some bi)
  obtain b I where bi: "bi = (b, I)" by (cases bi)
  show ?thesis
  proof (cases "kind I")
    case (LoadInst op q)
    show ?thesis
    proof (cases "projectionPath fuel F op ASI")
      case (Inl e)
      with assms Some bi LoadInst show ?thesis by (simp add: replaceLoad_def)
    next
      case (Inr po)
      show ?thesis
      proof (cases po)
        case None
        with assms Some bi LoadInst Inr show ?thesis by (simp add: replaceLoad_def)
      next
        case (Some ps)
        obtain F1 val1 bvs where pv: "projectValue X LI (rev ps) val [] F = (F1, val1, bvs)"
          by (cases "projectValue X LI (rev ps) val [] F") auto
        have "F' = eraseDeadProjections ps (eraseFromParent LI (endBorrows LI bvs
            (replaceAllUsesWith (InstResult LI)
               (if q = LoadCopy then InstResult (nextId F1) else val1)
               (if q = LoadCopy then fst (createBefore LI (CopyValueInst val1) F1) else F1))))"
          using assms \<open>findInst F LI = Some bi\<close> bi LoadInst Inr Some pv
          by (simp add: replaceLoad_def createBefore_def split: if_splits)
        with that \<open>findInst F LI = Some bi\<close> bi LoadInst Inr Some pv show ?thesis by blast
      qed
    qed
  qed (use assms Some bi in \<open>simp_all add: replaceLoad_def\<close>)
qed

lemma replaceLoad_props:
  assumes r: "replaceLoad X fuel LI val ASI F = Inr F'"
    and v: "val \<noteq> InstResult ASI" and a: "ASI < nextId F"
  shows "ev ASI {} F F' \<and> (wfIds BB F \<longrightarrow> wfIds BB F')
       \<and> (\<forall>b. \<forall>I\<in>set (getInsts F' b). instId I \<noteq> LI)"
proof -
  from r obtain b I op q ps F1 val1 bvs where
    pv: "projectValue X LI (rev ps) val [] F = (F1, val1, bvs)" and
    F'0: "F' = eraseDeadProjections ps (eraseFromParent LI (endBorrows LI bvs
            (replaceAllUsesWith (InstResult LI)
               (if q = LoadCopy then InstResult (nextId F1) else val1)
               (if q = LoadCopy then fst (createBefore LI (CopyValueInst val1) F1) else F1))))"
    by (rule replaceLoad_Inr)
  from projectValue_props[OF pv, of ASI BB]
  have e1: "ev ASI {} F F1" and w1: "wfIds BB F \<longrightarrow> wfIds BB F1"
    and v1: "val1 = val \<or> (\<exists>n\<ge>nextId F. val1 = InstResult n)" by auto
  from v1 v a have v1': "val1 \<noteq> InstResult ASI" by auto
  have n1: "nextId F \<le> nextId F1" using e1 by (rule ev_nextId)
  define new F2 where "new = (if q = LoadCopy then InstResult (nextId F1) else val1)"
    and "F2 = (if q = LoadCopy then fst (createBefore LI (CopyValueInst val1) F1) else F1)"
  have new: "new \<noteq> InstResult ASI" using v1' a n1 by (auto simp: new_def)
  have e2: "ev ASI {} F1 F2"
  proof (cases "q = LoadCopy")
    case True
    have "ev ASI {} F1 (fst (createBefore LI (CopyValueInst val1) F1))"
      by (rule ev_create0) (simp_all add: storesTo_def loadsDirectly_def)
    with True show ?thesis by (simp add: F2_def)
  next
    case False
    then show ?thesis by (simp add: F2_def ev_refl)
  qed
  have w2: "wfIds BB F1 \<longrightarrow> wfIds BB F2"
    unfolding F2_def by (simp add: wfIds_create)
  let ?F3 = "replaceAllUsesWith (InstResult LI) new F2"
  let ?F4 = "endBorrows LI bvs ?F3"
  let ?F5 = "eraseFromParent LI ?F4"
  have F': "F' = eraseDeadProjections ps ?F5"
    using F'0 by (simp only: new_def F2_def)
  have e3: "ev ASI {} F2 ?F3" using new by (rule ev_rauw)
  have e4: "ev ASI {} ?F3 ?F4" using endBorrows_props by blast
  have e5: "ev ASI {} ?F4 ?F5" by (rule ev_erase)
  have e6: "ev ASI {} ?F5 (eraseDeadProjections ps ?F5)"
    using eraseDeadProjections_props by blast
  have e: "ev ASI {} F F'"
    unfolding F'
    using e1 e2 e3 e4 e5 e6 ev_trans0 by blast
  have w3: "wfIds BB F2 \<longrightarrow> wfIds BB ?F3" by (simp add: wfIds_rauw)
  have w4: "wfIds BB ?F3 \<longrightarrow> wfIds BB ?F4" using endBorrows_props by blast
  have w5: "wfIds BB ?F4 \<longrightarrow> wfIds BB ?F5" by (simp add: wfIds_erase)
  have w6: "wfIds BB ?F5 \<longrightarrow> wfIds BB (eraseDeadProjections ps ?F5)"
    using eraseDeadProjections_props by blast
  have w: "wfIds BB F \<longrightarrow> wfIds BB F'"
    unfolding F' using w1 w2 w3 w4 w5 w6 by blast
  have s: "set (getInsts (eraseDeadProjections ps ?F5) b) \<subseteq> set (getInsts ?F5 b)" for b
    using eraseDeadProjections_props[of ASI ?F5 ps BB] by blast
  have "instId I \<noteq> LI" if "I \<in> set (getInsts F' b)" for b I
  proof -
    from that s[of b] have "I \<in> set (getInsts ?F5 b)" unfolding F' by blast
    then show ?thesis by simp
  qed
  with e w show ?thesis by blast
qed

lemma promoteDebugValueAddr_props:
  assumes "promoteDebugValueAddr X ty DVAI v F = Inr F'"
  shows "ev ASI {} F F' \<and> (wfIds BB F \<longrightarrow> wfIds BB F')
       \<and> (\<forall>b. \<forall>I\<in>set (getInsts F' b). instId I \<noteq> DVAI)"
proof -
  from assms consider "F' = eraseFromParent DVAI F"
    | vi where "F' = eraseFromParent DVAI (fst (createBefore DVAI (DebugValueInst v vi) F))"
    by (auto simp: promoteDebugValueAddr_def
             split: option.splits prod.splits SILInstructionKind.splits if_splits)
  then show ?thesis
  proof cases
    case 1
    then show ?thesis by (auto simp: ev_erase wfIds_erase)
  next
    case 2
    have "ev ASI {} F (fst (createBefore DVAI (DebugValueInst v vi) F))"
      by (rule ev_create0) (simp_all add: storesTo_def loadsDirectly_def)
    from ev_trans0[OF this ev_erase] 2 show ?thesis
      by (auto simp: wfIds_erase wfIds_create)
  qed
qed

lemma replaceDestroy_props:
  assumes "replaceDestroy X ty DAI v F = Inr F'" and "destroyLeavesSlot X ASI"
  shows "ev ASI {} F F' \<and> (wfIds BB F \<longrightarrow> wfIds BB F')
       \<and> (\<forall>b. \<forall>I\<in>set (getInsts F' b). instId I \<noteq> DAI)"
proof -
  from assms(1) have F': "F' = eraseFromParent DAI (createAllBefore DAI (emitLoweredDestroyValue X v) F)"
    by (auto simp: replaceDestroy_def split: if_splits)
  have "\<And>k. k \<in> set (emitLoweredDestroyValue X v) \<Longrightarrow> \<not> storesTo ASI k \<and> \<not> loadsDirectly ASI k"
    using assms(2) by (auto simp: destroyLeavesSlot_def)
  from createAllBefore_props[OF this, of _ F DAI BB]
  have "ev ASI {} F (createAllBefore DAI (emitLoweredDestroyValue X v) F)"
    and "wfIds BB F \<longrightarrow> wfIds BB (createAllBefore DAI (emitLoweredDestroyValue X v) F)"
    by auto
  with ev_trans0[OF _ ev_erase] show ?thesis
    unfolding F' by (auto simp: wfIds_erase)
qed

lemma static_ev:
  assumes s: "static ASI (c # rest) F" and e: "ev ASI A F F'"
  shows "static ASI rest F'"
proof -
  have n: "nextId F \<le> nextId F'" using e by (rule ev_nextId)
  have src: "(\<exists>I\<in>set (getInsts F b). pres ASI I I') \<or> nextId F \<le> instId I'"
    if "I' \<in> set (getInsts F' b)" for b I'
    using e that unfolding ev_def by blast
  have 1: "ASI < nextId F'" using s n by (simp add: static_def)
  have 2: "\<forall>c\<in>set rest. c < nextId F'" using s n by (auto simp: static_def)
  have 3: "isAllocStackKind (kind I')" if "I' \<in> set (getInsts F' b)" "instId I' = ASI" for b I'
  proof -
    from src[OF that(1)] show ?thesis
    proof
      assume "\<exists>I\<in>set (getInsts F b). pres ASI I I'"
      then obtain I where "I \<in> set (getInsts F b)" "pres ASI I I'" by blast
      with that(2) s show ?thesis by (auto simp: static_def pres_def)
    next
      assume "nextId F \<le> instId I'"
      with that(2) s show ?thesis by (simp add: static_def)
    qed
  qed
  have 4: "\<not> storesSlotAddress ASI (kind I')"
    if "I' \<in> set (getInsts F' b)" "instId I' \<in> set rest" for b I'
  proof -
    from src[OF that(1)] show ?thesis
    proof
      assume "\<exists>I\<in>set (getInsts F b). pres ASI I I'"
      then obtain I where I: "I \<in> set (getInsts F b)" "pres ASI I I'" by blast
      then have "instId I \<in> set (c # rest)" using that(2) by (simp add: pres_def)
      with s I(1) have "\<not> storesSlotAddress ASI (kind I)"
        unfolding static_def by blast
      with I(2) show ?thesis by (auto simp: pres_def)
    next
      assume "nextId F \<le> instId I'"
      with that(2) s show ?thesis by (auto simp: static_def)
    qed
  qed
  from 1 2 3 4 show ?thesis unfolding static_def by blast
qed

lemma storesInv_frame:
  assumes s: "storesInv ASI BB (c # rest) F LS" and e: "ev ASI A F F'"
    and v: "\<And>I'. I' \<in> set (getInsts F' BB) \<Longrightarrow> instId I' = c \<Longrightarrow> \<not> storesTo ASI (kind I')"
  shows "storesInv ASI BB rest F' LS"
  unfolding storesInv_def
proof (intro ballI impI)
  fix I' assume I': "I' \<in> set (getInsts F' BB)" "storesTo ASI (kind I')"
  from e I'(1) have "(\<exists>I\<in>set (getInsts F BB). pres ASI I I') \<or> \<not> storesTo ASI (kind I')"
    unfolding ev_def by blast
  with I'(2) obtain I where I: "I \<in> set (getInsts F BB)" "pres ASI I I'" by blast
  with I'(2) have "storesTo ASI (kind I)" "instId I' = instId I" by (auto simp: pres_def)
  with s I(1) have "instId I' \<in> set (c # rest) \<or> LS = Some (instId I')"
    by (auto simp: storesInv_def)
  with v[OF I'(1)] I'(2) show "instId I' \<in> set rest \<or> LS = Some (instId I')" by auto
qed

lemma loadsInv_frame:
  assumes s: "loadsInv ASI BB (c # rest) F RV" and e: "ev ASI {} F F'"
    and v: "\<And>I'. I' \<in> set (getInsts F' BB) \<Longrightarrow> instId I' = c \<Longrightarrow> \<not> loadsDirectly ASI (kind I')"
  shows "loadsInv ASI BB rest F' RV"
proof -
  from s obtain l where l: "\<forall>I\<in>set (getInsts F BB). loadsDirectly ASI (kind I) \<longrightarrow>
              instId I \<in> set (c # rest) \<or> (RV \<noteq> None \<and> instId I = l)"
    unfolding loadsInv_def by blast
  have "instId I' \<in> set rest \<or> (RV \<noteq> None \<and> instId I' = l)"
    if I': "I' \<in> set (getInsts F' BB)" "loadsDirectly ASI (kind I')" for I'
  proof -
    from e I'(1) have "(\<exists>I\<in>set (getInsts F BB). pres ASI I I') \<or> \<not> loadsDirectly ASI (kind I')"
      unfolding ev_def by blast
    with I'(2) obtain I where I: "I \<in> set (getInsts F BB)" "pres ASI I I'" by blast
    with I'(2) have "loadsDirectly ASI (kind I)" "instId I' = instId I" by (auto simp: pres_def)
    with l I(1) have "instId I' \<in> set (c # rest) \<or> (RV \<noteq> None \<and> instId I' = l)" by auto
    with v[OF I'(1)] I'(2) show ?thesis by auto
  qed
  then show ?thesis unfolding loadsInv_def by blast
qed

lemma findInst_mem:
  assumes "findInst F c = Some (b, I)"
  shows "I \<in> set (getInsts F b) \<and> instId I = c"
proof -
  from assms have "(b, I) \<in> set (allInsts F)" "instId I = c"
    unfolding findInst_def
    by (metis (mono_tags, lifting) find_Some_iff nth_mem, metis (mono_tags, lifting) find_Some_iff snd_conv)
  then show ?thesis by (auto simp: allInsts_def)
qed

lemma visited_unique:
  assumes "wfIds BB F" and "findInst F c = Some (b, Inst)"
    and "I \<in> set (getInsts F b')" and "instId I = c"
  shows "I = Inst"
  using assms findInst_mem[OF assms(2)] unfolding wfIds_def by blast

lemma isLoadFromStack_True:
  "isLoadFromStack fuel F I ASI = Inr True \<Longrightarrow> \<exists>op q. kind I = LoadInst op q"
  by (cases "kind I") (auto simp: isLoadFromStack_def)

lemma isLoadFromStack_False:
  "isLoadFromStack fuel F I ASI = Inr False \<Longrightarrow> \<not> loadsDirectly ASI (kind I)"
  by (cases "kind I"; cases fuel) (auto simp: isLoadFromStack_def loadsDirectly_def)

lemma inst_shapes:
  assumes s: "promoteAllocationInBlock_inst X fuel ASI ty Inst (F, RV, LS) = Inr ((F', RV', LS'), brk)"
  shows "(\<exists>v. RV = Some v \<and> RV' = RV \<and> LS' = LS \<and>
            (replaceLoad X fuel (instId Inst) v ASI F = Inr F'
             \<or> promoteDebugValueAddr X ty (instId Inst) v F = Inr F'
             \<or> replaceDestroy X ty (instId Inst) (Some v) F = Inr F'))
       \<or> (F' = F \<and> RV' = RV \<and> LS' = LS \<and> \<not> storesTo ASI (kind Inst)
            \<and> (\<not> loadsDirectly ASI (kind Inst) \<or> (loadsCopy ASI (kind Inst) \<and> RV = None)))
       \<or> (F' = F \<and> RV = None \<and> RV' = Some (InstResult (instId Inst)) \<and> LS' = LS
            \<and> (\<exists>op q. kind Inst = LoadInst op q))
       \<or> (\<exists>src q. kind Inst = StoreInst src (InstResult ASI) q
            \<and> pruneStore ASI (instId Inst) src q (F, RV, LS) = Inr (F', RV', LS'))
       \<or> (\<exists>op. kind Inst = DestroyValueInst op \<and> F' = F \<and> RV' = RV
            \<and> LS' = (if Some op = RV then None else LS))"
proof (cases "isLoadFromStack fuel F Inst ASI")
  case (Inl e)
  with s show ?thesis by (simp add: promoteAllocationInBlock_inst_def)
next
  case (Inr isLoad)
  show ?thesis
  proof (cases isLoad)
    case True
    with Inr have "isLoadFromStack fuel F Inst ASI = Inr True" by simp
    then obtain op q where k: "kind Inst = LoadInst op q"
      using isLoadFromStack_True by blast
    show ?thesis
    proof (cases RV)
      case None
      with s Inr True k show ?thesis
        by (auto simp: promoteAllocationInBlock_inst_def storesTo_def loadsDirectly_def
                       loadsCopy_def split: if_splits)
    next
      case (Some v)
      with s Inr True k show ?thesis
        by (auto simp: promoteAllocationInBlock_inst_def split: sum.splits)
    qed
  next
    case False
    from Inr False have "isLoadFromStack fuel F Inst ASI = Inr False" by simp
    note nl = isLoadFromStack_False[OF this]
    show ?thesis
    proof (cases "kind Inst")
      case (StoreInst src dest q)
      with s Inr False nl show ?thesis
        by (auto simp: promoteAllocationInBlock_inst_def storesTo_def
                 split: if_splits sum.splits)
    next
      case (DebugValueAddrInst op vi)
      with s Inr False nl show ?thesis
        by (cases RV)
           (auto simp: promoteAllocationInBlock_inst_def storesTo_def
                 split: if_splits sum.splits)
    next
      case (DestroyAddrInst op)
      with s Inr False nl show ?thesis
        by (cases RV)
           (auto simp: promoteAllocationInBlock_inst_def storesTo_def
                 split: if_splits sum.splits)
    next
      case (DestroyValueInst op)
      with s Inr False show ?thesis
        by (auto simp: promoteAllocationInBlock_inst_def split: if_splits)
    next
      case (DeallocStackInst op)
      with s Inr False nl show ?thesis
        by (auto simp: promoteAllocationInBlock_inst_def storesTo_def split: if_splits)
    qed (use s Inr False nl in
          \<open>auto simp: promoteAllocationInBlock_inst_def storesTo_def\<close>)
  qed
qed

lemma mem_create:
  "I \<in> set (getInsts (fst (createBefore pt k F)) b) \<Longrightarrow>
   I \<in> set (getInsts F b) \<or> instId I = nextId F"
  using set_insertBefore[of pt "SILInstruction (nextId F) k" "getInsts F b"] by auto

lemma pruneStore_props:
  assumes p: "pruneStore ASI c src q (F, RV, LS) = Inr (F', RV', LS')"
    and k: "\<And>b I. I \<in> set (getInsts F b) \<Longrightarrow> instId I = c \<Longrightarrow> kind I = StoreInst src (InstResult ASI) q"
    and c: "c < nextId F"
  shows "RV' = Some src \<and> LS' = Some c
       \<and> ev ASI (if RV = None then {nextId F} else {}) F F'
       \<and> (wfIds BB F \<longrightarrow> wfIds BB F')
       \<and> (\<forall>L. LS = Some L \<longrightarrow> (\<forall>b. \<forall>I\<in>set (getInsts F' b). instId I \<noteq> L))"
proof -
  let ?A = "if RV = None then {nextId F} else {}"
  define Fd where "Fd =
     (case RV of
        Some v \<Rightarrow> fst (createBefore c (DestroyValueInst v) F)
      | None \<Rightarrow>
          (case createBefore c (LoadInst (InstResult ASI) LoadTake) F of
             (F', newLoad) \<Rightarrow> fst (createBefore c (DestroyValueInst newLoad) F')))"
  define F1 where "F1 = (if q = StoreAssign
      then setKind c (StoreInst src (InstResult ASI) StoreInit) Fd else F)"
  have ed: "ev ASI ?A F Fd" and wd: "wfIds BB F \<longrightarrow> wfIds BB Fd"
    and sd: "\<And>b I. I \<in> set (getInsts Fd b) \<Longrightarrow> I \<in> set (getInsts F b) \<or> nextId F \<le> instId I"
  proof -
    show "ev ASI ?A F Fd"
    proof (cases RV)
      case None
      let ?Fa = "fst (createBefore c (LoadInst (InstResult ASI) LoadTake) F)"
      have a: "ev ASI {nextId F} F ?Fa"
        by (rule ev_create) (simp_all add: storesTo_def)
      have b: "ev ASI {} ?Fa (fst (createBefore c (DestroyValueInst (InstResult (nextId F))) ?Fa))"
        by (rule ev_create0) (simp_all add: storesTo_def loadsDirectly_def)
      from ev_trans[OF a b] None show ?thesis
        by (simp add: Fd_def createBefore_def)
    next
      case (Some v)
      have "ev ASI {} F (fst (createBefore c (DestroyValueInst v) F))"
        by (rule ev_create0) (simp_all add: storesTo_def loadsDirectly_def)
      with Some show ?thesis by (simp add: Fd_def)
    qed
    show "wfIds BB F \<longrightarrow> wfIds BB Fd"
    proof (cases RV)
      case None
      let ?Fa = "fst (createBefore c (LoadInst (InstResult ASI) LoadTake) F)"
      have "wfIds BB F \<longrightarrow> wfIds BB (fst (createBefore c (DestroyValueInst (InstResult (nextId F))) ?Fa))"
        using wfIds_create by blast
      with None show ?thesis by (simp add: Fd_def createBefore_def)
    next
      case (Some v)
      then show ?thesis by (simp add: Fd_def wfIds_create)
    qed
    fix b I assume I: "I \<in> set (getInsts Fd b)"
    show "I \<in> set (getInsts F b) \<or> nextId F \<le> instId I"
    proof (cases RV)
      case None
      let ?Fa = "fst (createBefore c (LoadInst (InstResult ASI) LoadTake) F)"
      from I None have "I \<in> set (getInsts (fst (createBefore c (DestroyValueInst (InstResult (nextId F))) ?Fa)) b)"
        by (simp add: Fd_def createBefore_def)
      then have "I \<in> set (getInsts ?Fa b) \<or> instId I = Suc (nextId F)"
        using mem_create[of I c _ ?Fa b] by simp
      then show ?thesis
        using mem_create[of I c _ F b] by auto
    next
      case (Some v)
      with I have "I \<in> set (getInsts (fst (createBefore c (DestroyValueInst v) F)) b)"
        by (simp add: Fd_def)
      then show ?thesis
        using mem_create[of I c _ F b] by auto
    qed
  qed
  have e1: "ev ASI ?A F F1"
  proof (cases "q = StoreAssign")
    case True
    have "ev ASI {} Fd (setKind c (StoreInst src (InstResult ASI) StoreInit) Fd)"
    proof (rule ev_setKind)
      fix b I assume I: "I \<in> set (getInsts Fd b)" "instId I = c"
      with sd[OF I(1)] c have "I \<in> set (getInsts F b)" by auto
      with k I(2) have "kind I = StoreInst src (InstResult ASI) q" by blast
      with I(2) show "pres ASI I (SILInstruction c (StoreInst src (InstResult ASI) StoreInit))"
        by (simp add: pres_def storesTo_def loadsDirectly_def loadsCopy_def isDestroyValue_def
              storesSlotAddress_def isAllocStackKind_def)
    qed
    from ev_trans[OF ed this] True show ?thesis by (simp add: F1_def)
  next
    case False
    then show ?thesis using ev_refl[of ASI "{}" F] by (auto simp: F1_def intro: ev_mono)
  qed
  have w1: "wfIds BB F \<longrightarrow> wfIds BB F1"
    using wd by (simp add: F1_def wfIds_setKind)
  have "pruneStore ASI c src q (F, RV, LS) = (case LS of
             None \<Rightarrow> Inr (F1, Some src, Some c)
           | Some L \<Rightarrow>
               (case findInst F1 L of
                  None \<Rightarrow> Inl NullDereference
                | Some (_, LI) \<Rightarrow>
                    (case kind LI of
                       StoreInst _ _ StoreAssign \<Rightarrow> Inl AssertionFailure
                     | _ \<Rightarrow> Inr (eraseFromParent L F1, Some src, Some c))))"
    unfolding pruneStore_def F1_def Fd_def Let_def by simp
  with p have p': "(case LS of
             None \<Rightarrow> Inr (F1, Some src, Some c)
           | Some L \<Rightarrow>
               (case findInst F1 L of
                  None \<Rightarrow> Inl NullDereference
                | Some (_, LI) \<Rightarrow>
                    (case kind LI of
                       StoreInst _ _ StoreAssign \<Rightarrow> Inl AssertionFailure
                     | _ \<Rightarrow> Inr (eraseFromParent L F1, Some src, Some c)))) = Inr (F', RV', LS')"
    by simp
  show ?thesis
  proof (cases LS)
    case None
    with p' e1 w1 show ?thesis by simp
  next
    case (Some L)
    with p' have r: "RV' = Some src" "LS' = Some c" and F': "F' = eraseFromParent L F1"
      by (auto split: option.splits prod.splits SILInstructionKind.splits
               StoreOwnershipQualifier.splits)
    have "ev ASI (?A \<union> {}) F F'" unfolding F' using e1 ev_erase by (rule ev_trans)
    with r w1 Some show ?thesis by (auto simp: F' wfIds_erase)
  qed
qed

lemma scan_step:
  assumes inv: "scanInv ASI BB (c # rest) (F, RV, LS)"
    and f: "findInst F c = Some (b, Inst)"
    and s: "promoteAllocationInBlock_inst X fuel ASI ty Inst (F, RV, LS) = Inr ((F', RV', LS'), brk)"
    and d: "destroyLeavesSlot X ASI"
  shows "scanInv ASI BB rest (F', RV', LS')
       \<and> (\<exists>A. ev ASI A F F')
       \<and> (storesInv ASI BB (c # rest) F LS \<longrightarrow> \<not> forgetsLastStore Inst (F, RV, LS) \<longrightarrow>
            storesInv ASI BB rest F' LS')
       \<and> (loadsInv ASI BB (c # rest) F RV \<longrightarrow> \<not> leavesLoadCopy ASI Inst (F, RV, LS) \<longrightarrow>
            loadsInv ASI BB rest F' RV')"
proof -
  from inv have wf: "wfIds BB F" and st: "static ASI (c # rest) F"
    and g: "RV \<noteq> Some (InstResult ASI)"
    by (auto simp: scanInv_def)
  from findInst_mem[OF f] have mem: "Inst \<in> set (getInsts F b)" and idc: "instId Inst = c" by auto
  from st have a: "ASI < nextId F" and cn: "c < nextId F" by (auto simp: static_def)
  from st mem idc have cI: "\<not> storesSlotAddress ASI (kind Inst)"
    unfolding static_def by auto
  have uniq: "I = Inst" if "I \<in> set (getInsts F b')" "instId I = c" for I b'
    using visited_unique[OF wf f that] .
  from inst_shapes[OF s] consider
      (edit) v where "RV = Some v" "RV' = RV" "LS' = LS"
        "replaceLoad X fuel (instId Inst) v ASI F = Inr F'
         \<or> promoteDebugValueAddr X ty (instId Inst) v F = Inr F'
         \<or> replaceDestroy X ty (instId Inst) (Some v) F = Inr F'"
    | (noop) "F' = F" "RV' = RV" "LS' = LS" "\<not> storesTo ASI (kind Inst)"
        "\<not> loadsDirectly ASI (kind Inst) \<or> (loadsCopy ASI (kind Inst) \<and> RV = None)"
    | (adopt) op q where "F' = F" "RV = None" "RV' = Some (InstResult (instId Inst))" "LS' = LS"
        "kind Inst = LoadInst op q"
    | (store) src q where "kind Inst = StoreInst src (InstResult ASI) q"
        "pruneStore ASI (instId Inst) src q (F, RV, LS) = Inr (F', RV', LS')"
    | (destroy) op where "kind Inst = DestroyValueInst op" "F' = F" "RV' = RV"
        "LS' = (if Some op = RV then None else LS)"
    by blast
  then show ?thesis
  proof cases
    case edit
    from edit(1) g have v: "v \<noteq> InstResult ASI" by simp
    have p: "ev ASI {} F F' \<and> (wfIds BB F \<longrightarrow> wfIds BB F')
       \<and> (\<forall>b. \<forall>I\<in>set (getInsts F' b). instId I \<noteq> c)"
      using edit(4) replaceLoad_props[where BB = BB and LI = c and F = F and F' = F', OF _ v a]
        promoteDebugValueAddr_props[where BB = BB and DVAI = c and F = F and F' = F' and ASI = ASI]
        replaceDestroy_props[where BB = BB and DAI = c and F = F and F' = F', OF _ d]
      unfolding idc by blast
    then have e: "ev ASI {} F F'" and w: "wfIds BB F'"
      and gone: "\<And>I. I \<in> set (getInsts F' BB) \<Longrightarrow> instId I \<noteq> c"
      using wf by auto
    have 1: "storesInv ASI BB rest F' LS" if si: "storesInv ASI BB (c # rest) F LS"
      using si e by (rule storesInv_frame) (use gone in auto)
    have 2: "loadsInv ASI BB rest F' RV" if li: "loadsInv ASI BB (c # rest) F RV"
      using li e by (rule loadsInv_frame) (use gone in auto)
    have "scanInv ASI BB rest (F', RV', LS')"
      using w static_ev[OF st e] g edit(2) by (simp add: scanInv_def)
    with 1 2 e edit(2,3) show ?thesis by blast
  next
    case noop
    have 1: "storesInv ASI BB rest F LS" if si: "storesInv ASI BB (c # rest) F LS"
      using si ev_refl by (rule storesInv_frame) (use uniq noop(4) in auto)
    have 2: "loadsInv ASI BB rest F RV"
      if li: "loadsInv ASI BB (c # rest) F RV" and nl: "\<not> leavesLoadCopy ASI Inst (F, RV, LS)"
    proof -
      from noop(5) nl have nd: "\<not> loadsDirectly ASI (kind Inst)"
        by (auto simp: leavesLoadCopy_def)
      from li ev_refl show ?thesis by (rule loadsInv_frame) (use uniq nd in auto)
    qed
    have "scanInv ASI BB rest (F', RV', LS')"
      using wf static_ev[OF st ev_refl] g noop(1,2) by (simp add: scanInv_def)
    moreover have "ev ASI {} F F'" using noop(1) ev_refl by simp
    ultimately show ?thesis using 1 2 noop(1,2,3) by blast
  next
    case adopt
    have "c \<noteq> ASI"
    proof
      assume "c = ASI"
      with st mem idc have "isAllocStackKind (kind Inst)" unfolding static_def by blast
      with adopt(5) show False by (simp add: isAllocStackKind_def)
    qed
    then have g': "RV' \<noteq> Some (InstResult ASI)" using adopt(3) idc by simp
    have ns: "\<not> storesTo ASI (kind Inst)" using adopt(5) by (simp add: storesTo_def)
    have 1: "storesInv ASI BB rest F LS" if si: "storesInv ASI BB (c # rest) F LS"
      using si ev_refl by (rule storesInv_frame) (use uniq ns in auto)
    have 2: "loadsInv ASI BB rest F RV'" if li: "loadsInv ASI BB (c # rest) F RV"
    proof -
      from li adopt(2) have "\<forall>I\<in>set (getInsts F BB). loadsDirectly ASI (kind I) \<longrightarrow>
              instId I \<in> set (c # rest)"
        unfolding loadsInv_def by auto
      then have "\<forall>I\<in>set (getInsts F BB). loadsDirectly ASI (kind I) \<longrightarrow>
              instId I \<in> set rest \<or> (RV' \<noteq> None \<and> instId I = c)"
        using adopt(3) by auto
      then show ?thesis unfolding loadsInv_def by blast
    qed
    have "scanInv ASI BB rest (F', RV', LS')"
      using wf static_ev[OF st ev_refl] g' adopt(1) by (simp add: scanInv_def)
    moreover have "ev ASI {} F F'" using adopt(1) ev_refl by simp
    ultimately show ?thesis using 1 2 adopt(1,4) by blast
  next
    case store
    have k: "kind I = StoreInst src (InstResult ASI) q"
      if "I \<in> set (getInsts F b')" "instId I = c" for b' I
      using uniq[OF that] store(1) by simp
    let ?A = "if RV = None then {nextId F} else {}"
    from pruneStore_props[where BB = BB, OF store(2)[unfolded idc] k cn]
    have r: "RV' = Some src" "LS' = Some c" and e: "ev ASI ?A F F'"
      and w: "wfIds BB F'"
      and gone: "\<And>L I. LS = Some L \<Longrightarrow> I \<in> set (getInsts F' BB) \<Longrightarrow> instId I \<noteq> L"
      using wf by auto
    from cI store(1) have "src \<noteq> InstResult ASI" by (simp add: storesSlotAddress_def)
    then have g': "RV' \<noteq> Some (InstResult ASI)" using r by simp
    have 1: "storesInv ASI BB rest F' LS'" if si: "storesInv ASI BB (c # rest) F LS"
      unfolding storesInv_def
    proof (intro ballI impI)
      fix I' assume I': "I' \<in> set (getInsts F' BB)" "storesTo ASI (kind I')"
      from e I'(1) have "(\<exists>I\<in>set (getInsts F BB). pres ASI I I') \<or> \<not> storesTo ASI (kind I')"
        unfolding ev_def by blast
      with I'(2) obtain I where I: "I \<in> set (getInsts F BB)" "pres ASI I I'" by blast
      with I'(2) have "storesTo ASI (kind I)" "instId I' = instId I" by (auto simp: pres_def)
      with si I(1) have "instId I' \<in> set (c # rest) \<or> LS = Some (instId I')"
        by (auto simp: storesInv_def)
      with gone[OF _ I'(1)] r show "instId I' \<in> set rest \<or> LS' = Some (instId I')" by auto
    qed
    have 2: "loadsInv ASI BB rest F' RV'" if li: "loadsInv ASI BB (c # rest) F RV"
    proof -
      from li obtain l where l: "\<forall>I\<in>set (getInsts F BB). loadsDirectly ASI (kind I) \<longrightarrow>
              instId I \<in> set (c # rest) \<or> (RV \<noteq> None \<and> instId I = l)"
        unfolding loadsInv_def by blast
      define l' where "l' = (if RV = None then nextId F else l)"
      have "instId I' \<in> set rest \<or> (RV' \<noteq> None \<and> instId I' = l')"
        if I': "I' \<in> set (getInsts F' BB)" "loadsDirectly ASI (kind I')" for I'
      proof -
        from e I'(1) consider I where "I \<in> set (getInsts F BB)" "pres ASI I I'"
          | "loadsDirectly ASI (kind I') \<longrightarrow> instId I' \<in> ?A"
          unfolding ev_def by blast
        then show ?thesis
        proof cases
          case 1
          with I'(2) have ld: "loadsDirectly ASI (kind I)" and ii: "instId I' = instId I"
            by (auto simp: pres_def)
          have "instId I \<noteq> c"
          proof
            assume "instId I = c"
            with k[OF 1(1)] ld show False by (simp add: loadsDirectly_def)
          qed
          with l 1(1) ld ii r show ?thesis by (auto simp: l'_def)
        next
          case 2
          with I'(2) r show ?thesis by (auto simp: l'_def split: if_splits)
        qed
      qed
      then show ?thesis unfolding loadsInv_def by blast
    qed
    have "scanInv ASI BB rest (F', RV', LS')"
      using w static_ev[OF st e] g' by (simp add: scanInv_def)
    with 1 2 e show ?thesis by blast
  next
    case destroy
    have ns: "\<not> storesTo ASI (kind Inst)" "\<not> loadsDirectly ASI (kind Inst)"
      using destroy(1) by (simp_all add: storesTo_def loadsDirectly_def)
    have 1: "storesInv ASI BB rest F LS'"
      if si: "storesInv ASI BB (c # rest) F LS" and nf: "\<not> forgetsLastStore Inst (F, RV, LS)"
    proof -
      from nf destroy(1,4) have "LS' = LS" by (auto simp: forgetsLastStore_def)
      moreover have "storesInv ASI BB rest F LS"
        using si ev_refl by (rule storesInv_frame) (use uniq ns in auto)
      ultimately show ?thesis by simp
    qed
    have 2: "loadsInv ASI BB rest F RV" if li: "loadsInv ASI BB (c # rest) F RV"
      using li ev_refl by (rule loadsInv_frame) (use uniq ns in auto)
    have "scanInv ASI BB rest (F', RV', LS')"
      using wf static_ev[OF st ev_refl] g destroy(2,3) by (simp add: scanInv_def)
    moreover have "ev ASI {} F F'" using destroy(2) ev_refl by simp
    ultimately show ?thesis using 1 2 destroy(2,3) by blast
  qed
qed

lemma scan_loop:
  assumes d: "destroyLeavesSlot X ASI"
  shows "promoteAllocationInBlock_loop X fuel ASI ty todo st = Inr (st', unvisited) \<Longrightarrow>
         scanInv ASI BB todo st \<Longrightarrow>
         scanInv ASI BB unvisited st' \<and> set unvisited \<subseteq> set todo
         \<and> (\<exists>A. ev ASI A (fst st) (fst st'))
         \<and> (storesInv ASI BB todo (fst st) (snd (snd st)) \<longrightarrow>
              \<not> scanMeets forgetsLastStore X fuel ASI ty todo st \<longrightarrow>
              storesInv ASI BB unvisited (fst st') (snd (snd st')))
         \<and> (loadsInv ASI BB todo (fst st) (fst (snd st)) \<longrightarrow>
              \<not> scanMeets (leavesLoadCopy ASI) X fuel ASI ty todo st \<longrightarrow>
              loadsInv ASI BB unvisited (fst st') (fst (snd st')))"
proof (induction todo arbitrary: st)
  case Nil
  then show ?case using ev_refl by auto
next
  case (Cons c rest)
  obtain F RV LS where st: "st = (F, RV, LS)" by (cases st)
  from Cons.prems(1) st obtain b Inst where f: "findInst F c = Some (b, Inst)"
    by (cases "findInst F c") auto
  from Cons.prems(1) st f obtain st1 brk where
    s: "promoteAllocationInBlock_inst X fuel ASI ty Inst (F, RV, LS) = Inr (st1, brk)"
    by (cases "promoteAllocationInBlock_inst X fuel ASI ty Inst (F, RV, LS)") auto
  obtain F1 RV1 LS1 where st1: "st1 = (F1, RV1, LS1)" by (cases st1)
  note step = scan_step[OF Cons.prems(2)[unfolded st] f s[unfolded st1] d]
  from step have i1: "scanInv ASI BB rest st1" by (simp add: st1)
  from step obtain A where e1: "ev ASI A F F1" by blast
  have m1: "scanMeets P X fuel ASI ty (c # rest) st =
      (P Inst st \<or> (\<not> brk \<and> scanMeets P X fuel ASI ty rest st1))" for P
    using st f s by (cases brk) auto
  from step have s1: "storesInv ASI BB rest F1 LS1"
    if "storesInv ASI BB (c # rest) F LS" "\<not> scanMeets forgetsLastStore X fuel ASI ty (c # rest) st"
    using that m1[of forgetsLastStore] st by blast
  from step have l1: "loadsInv ASI BB rest F1 RV1"
    if "loadsInv ASI BB (c # rest) F RV" "\<not> scanMeets (leavesLoadCopy ASI) X fuel ASI ty (c # rest) st"
    using that m1[of "leavesLoadCopy ASI"] st by blast
  show ?case
  proof (cases brk)
    case True
    with Cons.prems(1) st f s have "st' = st1" "unvisited = rest" by auto
    with i1 e1 s1 l1 st st1 show ?thesis by auto
  next
    case False
    with Cons.prems(1) st f s
    have "promoteAllocationInBlock_loop X fuel ASI ty rest st1 = Inr (st', unvisited)" by simp
    note ih = Cons.IH[OF this i1]
    from ih obtain B where "ev ASI B F1 (fst st')" by (auto simp: st1)
    with e1 have e: "ev ASI (A \<union> B) F (fst st')" by (rule ev_trans)
    have 3: "storesInv ASI BB unvisited (fst st') (snd (snd st'))"
      if "storesInv ASI BB (c # rest) F LS"
        "\<not> scanMeets forgetsLastStore X fuel ASI ty (c # rest) st"
      using ih s1[OF that] that(2) m1[of forgetsLastStore] False st1 by auto
    have 4: "loadsInv ASI BB unvisited (fst st') (fst (snd st'))"
      if "loadsInv ASI BB (c # rest) F RV"
        "\<not> scanMeets (leavesLoadCopy ASI) X fuel ASI ty (c # rest) st"
      using ih l1[OF that] that(2) m1[of "leavesLoadCopy ASI"] False st1 by auto
    from ih e 3 4 st show ?thesis by auto
  qed
qed

lemma scanInv_initial:
  assumes "scannableBlock ASI BB F"
  shows "scanInv ASI BB (map instId (getInsts F BB)) (F, None, None)"
proof -
  from assms have wf: "wfIds BB F" and a: "ASI < nextId F"
    and h: "\<forall>b. \<forall>I\<in>set (getInsts F b). instId I = ASI \<longrightarrow> isAllocStackKind (kind I)"
    and c: "\<forall>I\<in>set (getInsts F BB). \<not> storesSlotAddress ASI (kind I)"
    by (auto simp: scannableBlock_def)
  have n: "\<forall>c\<in>set (map instId (getInsts F BB)). c < nextId F"
    using wf by (auto simp: wfIds_def)
  have c': "\<not> storesSlotAddress ASI (kind I)"
    if "I \<in> set (getInsts F b)" "instId I \<in> set (map instId (getInsts F BB))" for b I
  proof -
    from that(2) obtain J where J: "J \<in> set (getInsts F BB)" "instId J = instId I" by auto
    with that(1) wf have "I = J" unfolding wfIds_def by metis
    with c J(1) show ?thesis by blast
  qed
  have "static ASI (map instId (getInsts F BB)) F"
    unfolding static_def using a n h c' by blast
  then show ?thesis using wf by (simp add: scanInv_def)
qed

lemma at_most_one:
  assumes "distinct (map f xs)" and "\<And>x. x \<in> set xs \<Longrightarrow> P x \<Longrightarrow> f x = a"
  shows "length (filter P xs) \<le> 1"
proof -
  have "distinct (map f (filter P xs))" using assms(1) by (rule distinct_map_filter)
  moreover have "set (map f (filter P xs)) \<subseteq> {a}" using assms(2) by auto
  ultimately have "length (map f (filter P xs)) \<le> card {a}"
    by (metis card_mono distinct_card finite.emptyI finite.insertI)
  then show ?thesis by simp
qed

lemma pruned_block_counts:
  assumes sc: "scannableBlock ASI BB F" and d: "destroyLeavesSlot X ASI"
    and l: "promoteAllocationInBlock_loop X fuel ASI ty (map instId (getInsts F BB)) (F, None, None)
           = Inr ((F', RunningVal, LastStore), unvisited)"
    and t: "\<forall>I\<in>set (getInsts F BB). instId I \<in> set unvisited \<longrightarrow>
              \<not> storesTo ASI (kind I) \<and> \<not> loadsDirectly ASI (kind I)"
  shows "(\<not> scanMeets forgetsLastStore X fuel ASI ty (map instId (getInsts F BB)) (F, None, None) \<longrightarrow>
            length (filter (\<lambda>I. storesTo ASI (kind I)) (getInsts F' BB)) \<le> 1
            \<and> (\<forall>I\<in>set (getInsts F' BB). storesTo ASI (kind I) \<longrightarrow> LastStore = Some (instId I)))
       \<and> (\<not> scanMeets (leavesLoadCopy ASI) X fuel ASI ty (map instId (getInsts F BB)) (F, None, None) \<longrightarrow>
            length (filter (\<lambda>I. loadsDirectly ASI (kind I)) (getInsts F' BB)) \<le> 1)"
proof -
  let ?todo = "map instId (getInsts F BB)"
  have s0: "storesInv ASI BB ?todo F None" by (auto simp: storesInv_def)
  have l0: "loadsInv ASI BB ?todo F None" by (auto simp: loadsInv_def)
  note lp = scan_loop[OF d l scanInv_initial[OF sc]]
  from lp have wf: "wfIds BB F'" and sub: "set unvisited \<subseteq> set ?todo"
    by (auto simp: scanInv_def)
  from lp obtain A where e: "ev ASI A F F'" by auto
  from sc have wf0: "wfIds BB F" by (simp add: scannableBlock_def)
  from wf have dist: "distinct (map instId (getInsts F' BB))" by (simp add: wfIds_def)
  have tail: "\<not> storesTo ASI (kind I') \<and> \<not> loadsDirectly ASI (kind I')"
    if I': "I' \<in> set (getInsts F' BB)" "instId I' \<in> set unvisited" for I'
  proof -
    from e I'(1) consider I where "I \<in> set (getInsts F BB)" "pres ASI I I'"
      | "nextId F \<le> instId I'"
      unfolding ev_def by blast
    then show ?thesis
    proof cases
      case 1
      with I'(2) t have "\<not> storesTo ASI (kind I) \<and> \<not> loadsDirectly ASI (kind I)"
        by (auto simp: pres_def)
      with 1(2) show ?thesis by (auto simp: pres_def)
    next
      case 2
      from I'(2) sub obtain J where "J \<in> set (getInsts F BB)" "instId J = instId I'" by auto
      with wf0 have "instId I' < nextId F" unfolding wfIds_def by metis
      with 2 show ?thesis by simp
    qed
  qed
  have 1: "length (filter (\<lambda>I. storesTo ASI (kind I)) (getInsts F' BB)) \<le> 1
       \<and> (\<forall>I\<in>set (getInsts F' BB). storesTo ASI (kind I) \<longrightarrow> LastStore = Some (instId I))"
    if nf: "\<not> scanMeets forgetsLastStore X fuel ASI ty ?todo (F, None, None)"
  proof -
    from lp s0 nf have si: "storesInv ASI BB unvisited F' LastStore" by simp
    have 3: "\<forall>I\<in>set (getInsts F' BB). storesTo ASI (kind I) \<longrightarrow> LastStore = Some (instId I)"
      using si tail by (auto simp: storesInv_def)
    have "length (filter (\<lambda>I. storesTo ASI (kind I)) (getInsts F' BB)) \<le> 1"
      using dist by (rule at_most_one[where a = "the LastStore"]) (use 3 in auto)
    with 3 show ?thesis by blast
  qed
  have 2: "length (filter (\<lambda>I. loadsDirectly ASI (kind I)) (getInsts F' BB)) \<le> 1"
    if nl: "\<not> scanMeets (leavesLoadCopy ASI) X fuel ASI ty ?todo (F, None, None)"
  proof -
    from lp l0 nl have li: "loadsInv ASI BB unvisited F' RunningVal" by simp
    then obtain l where l: "\<forall>I\<in>set (getInsts F' BB). loadsDirectly ASI (kind I) \<longrightarrow>
              instId I \<in> set unvisited \<or> (RunningVal \<noteq> None \<and> instId I = l)"
      unfolding loadsInv_def by blast
    show ?thesis
      using dist by (rule at_most_one[where a = l]) (use l tail in auto)
  qed
  from 1 2 show ?thesis by blast
qed

lemma store_deletes_last_store:
  assumes k: "kind Inst = StoreInst src (InstResult ASI) q"
    and s: "promoteAllocationInBlock_inst X fuel ASI ty Inst (F, RV, Some L) = Inr ((F', RV', LS'), brk)"
  shows "RV' = Some src \<and> LS' = Some (instId Inst) \<and> \<not> brk
       \<and> (\<forall>b. \<forall>I\<in>set (getInsts F' b). instId I \<noteq> L)"
proof -
  have l: "isLoadFromStack fuel F Inst ASI = Inr False"
    using k by (simp add: isLoadFromStack_def)
  from s k l have p: "pruneStore ASI (instId Inst) src q (F, RV, Some L) = Inr (F', RV', LS')"
    and b: "\<not> brk"
    by (auto simp: promoteAllocationInBlock_inst_def split: sum.splits)
  from p obtain F1 where "F' = eraseFromParent L F1" "RV' = Some src" "LS' = Some (instId Inst)"
    unfolding pruneStore_def Let_def
    by (auto split: option.splits prod.splits SILInstructionKind.splits
          StoreOwnershipQualifier.splits)
  with b show ?thesis by simp
qed

text \<open>
  At a \<^verbatim>\<open>destroy_value\<close> of the running value the scan forgets the store it retained, so
  the next store does not delete it. In block 1 of \<open>storeTakeStore\<close> both stores are
  left, where the comments of the source say that at most one store is left per block.
\<close>

lemma destroy_value_leaves_two_stores:
  "(case promoteAllocationInBlock exampleExternals 10 1 (NominalType 0) 1 storeTakeStore of
      Inl e \<Rightarrow> False
    | Inr (F, LastStore) \<Rightarrow>
        filter (\<lambda>I. storesTo 1 (kind I)) (getInsts F 1) =
          [SILInstruction 4 (StoreInst (SILArgument 0 1) (InstResult 1) StoreInit),
           SILInstruction 7 (StoreInst (SILArgument 0 0) (InstResult 1) StoreInit)])
   \<and> scanMeets forgetsLastStore exampleExternals 10 1 (NominalType 0)
        (map instId (getInsts storeTakeStore 1)) (storeTakeStore, None, None)"
  by code_simp

section \<open>Facts about the examples\<close>

lemma diamondDT_wellFormed: "wellFormedDT diamondDT"
  by (auto simp: wellFormedDT_def diamondDT_def diamondNode_def entryNode_def split: if_splits)

lemma diamond_phi_blocks:
  "computePhiBlocks 10 diamondDT diamondLevels (getSuccessorBlocks diamond) 0
     (promoterDSI diamondUses) diamondUses = Inr [3]"
  by code_simp

lemma takeThroughField_uses: "getUseTrees 10 takeThroughField (InstResult 1) = Inr takeThroughFieldUses"
  by code_simp

section \<open>The claims\<close>

text \<open>
  Claim C1. Every block that the placement accepts into the phi-block set of a slot is
  dominated by the block of the allocation, and is not properly dominated by the block
  of the slot's deallocation when the uses hold exactly one deallocation; with more than
  one, the promoter keeps no deallocation and the second condition is empty. \<open>uses0\<close>
  are the uses the constructor scans, \<open>uses\<close> those that seed the queue.
\<close>

theorem phi_blocks_dominated:
  assumes "wellFormedDT DT"
    and "computePhiBlocks fuel DT lv succs asiParent (promoterDSI uses0) uses = Inr phis"
    and "b \<in> set phis"
  shows "dominates DT asiParent b
       \<and> (\<forall>D. filter isDealloc uses0 = [D] \<longrightarrow> \<not> properlyDominates DT (getParent D) b)
       \<and> (1 < length (filter isDealloc uses0) \<longrightarrow> promoterDSI uses0 = None)"
proof -
  have wf: "\<forall>b n. getNode DT b = Some n \<longrightarrow> getBlock n = b"
    using assms(1) by (simp add: wellFormedDT_def)
  have ok: "phiBlocksOk DT asiParent (promoterDSI uses0) phis"
    using computePhiBlocks_ok[OF wf assms(2)] .
  with assms(3) have 1: "dominates DT asiParent b"
    by (auto simp: phiBlocksOk_def list_all_iff)
  have 2: "\<not> properlyDominates DT (getParent D) b" if "filter isDealloc uses0 = [D]" for D
  proof -
    from that have "promoterDSI uses0 = Some D" by (simp add: promoterDSI_unique)
    with ok assms(3) show ?thesis by (auto simp: phiBlocksOk_def list_all_iff)
  qed
  have 3: "promoterDSI uses0 = None" if "1 < length (filter isDealloc uses0)"
    using that by (auto simp: promoterDSI_unique split: list.splits)
  from 1 2 3 show ?thesis by blast
qed

theorem phi_blocks_dominated_witness:
  "computePhiBlocks 10 diamondDT diamondLevels (getSuccessorBlocks diamond) 0
     (promoterDSI diamondUses) diamondUses = Inr [3]
   \<and> filter isDealloc diamondUses = [Use (SILInstruction 9 (DeallocStackInst (InstResult 1))) 3 []]
   \<and> dominates diamondDT 0 3 \<and> \<not> properlyDominates diamondDT 3 3"
proof -
  have f: "filter isDealloc diamondUses = [Use (SILInstruction 9 (DeallocStackInst (InstResult 1))) 3 []]"
    by (simp add: diamondUses_def isDealloc_def)
  from phi_blocks_dominated[OF diamondDT_wellFormed diamond_phi_blocks, of 3] f diamond_phi_blocks
  show ?thesis by simp
qed

text \<open>
  Claim C2, as stated, fails for a block outside the dominator tree: the walk of
  \<^verbatim>\<open>getLiveOutValue\<close> starts at the block's node, so for such a block it yields the
  undefined value even when the block has a retained store. Block 4 of the diamond is
  one, a predecessor of the phi block 3.
\<close>

theorem live_out_outside_tree_counterexample:
  "lastStoreSrc diamond diamondLastStores 4 = Inr (Some (SILArgument 0 0))
   \<and> getPredecessorBlocks diamond 3 = [1, 2, 4]
   \<and> getLiveOutValue diamond diamondDT diamondLastStores (NominalType 0) [3] 4
       = Inr (SILUndef (NominalType 0))"
  by code_simp

text \<open>
  Claim C2, amended. The live-in value of a block is the block's last argument if it
  is a phi block, else the undefined value if the block has no predecessor or is not in
  the dominator tree, else the live-out value of its immediate dominator (the assertion
  fails when there is none). The live-out value of a block is the undefined value if
  the block is not in the dominator tree; else the source of the block's retained store
  if one is recorded, else the block's last argument if it is a phi block, else the
  live-out value of its immediate dominator, and the undefined value past the root.
\<close>

theorem live_in_live_out_values:
  assumes "wellFormedDT DT"
  shows "getLiveInValue F DT L ty pred_empty P B =
      (if B \<in> set P then lastArgument F B
       else if pred_empty B \<or> getNode DT B = None then Inr (SILUndef ty)
       else (case getIDom (the (getNode DT B)) of
               None \<Rightarrow> Inl AssertionFailure
             | Some IDom \<Rightarrow> getLiveOutValue F DT L ty P (getBlock IDom)))
    \<and> getLiveOutValue F DT L ty P B =
      (case getNode DT B of
         None \<Rightarrow> Inr (SILUndef ty)
       | Some N \<Rightarrow>
          (case lastStoreSrc F L B of
             Inl e \<Rightarrow> Inl e
           | Inr (Some src) \<Rightarrow> Inr src
           | Inr None \<Rightarrow>
               if B \<in> set P then lastArgument F B
               else (case getIDom N of
                       None \<Rightarrow> Inr (SILUndef ty)
                     | Some IDom \<Rightarrow> getLiveOutValue F DT L ty P (getBlock IDom))))"
proof
  show "getLiveInValue F DT L ty pred_empty P B =
      (if B \<in> set P then lastArgument F B
       else if pred_empty B \<or> getNode DT B = None then Inr (SILUndef ty)
       else (case getIDom (the (getNode DT B)) of
               None \<Rightarrow> Inl AssertionFailure
             | Some IDom \<Rightarrow> getLiveOutValue F DT L ty P (getBlock IDom)))"
    by (auto simp: getLiveInValue_def split: option.splits)
  show "getLiveOutValue F DT L ty P B =
      (case getNode DT B of
         None \<Rightarrow> Inr (SILUndef ty)
       | Some N \<Rightarrow>
          (case lastStoreSrc F L B of
             Inl e \<Rightarrow> Inl e
           | Inr (Some src) \<Rightarrow> Inr src
           | Inr None \<Rightarrow>
               if B \<in> set P then lastArgument F B
               else (case getIDom N of
                       None \<Rightarrow> Inr (SILUndef ty)
                     | Some IDom \<Rightarrow> getLiveOutValue F DT L ty P (getBlock IDom))))"
  proof (cases "getNode DT B")
    case None
    then show ?thesis by (simp add: getLiveOutValue_def)
  next
    case (Some N)
    with assms have b: "getBlock N = B"
      and d: "\<And>d. getIDom N = Some d \<Longrightarrow> getNode DT (getBlock d) = Some d"
      by (auto simp: wellFormedDT_def)
    show ?thesis
      using Some b d
      by (cases N) (auto simp: getLiveOutValue_def split: sum.splits option.splits)
  qed
qed

theorem live_in_live_out_values_witness:
  "getLiveInValue (addBlockArguments [3] diamond) diamondDT diamondLastStores (NominalType 0)
      (\<lambda>b. getPredecessorBlocks diamond b = []) [3] 3 = Inr (SILArgument 3 0)
   \<and> getLiveOutValue (addBlockArguments [3] diamond) diamondDT diamondLastStores (NominalType 0)
      [3] 3 = Inr (SILArgument 3 0)
   \<and> getLiveOutValue (addBlockArguments [3] diamond) diamondDT diamondLastStores (NominalType 0)
      [3] 2 = Inr (SILArgument 0 1)
   \<and> getLiveInValue (addBlockArguments [3] diamond) diamondDT diamondLastStores (NominalType 0)
      (\<lambda>b. getPredecessorBlocks diamond b = []) [3] 2 = Inr (SILUndef (NominalType 0))"
proof -
  let ?F = "addBlockArguments [3] diamond"
  have n: "getNode diamondDT 3 = Some (diamondNode 3)" "getNode diamondDT 2 = Some (diamondNode 2)"
      "getNode diamondDT 0 = Some entryNode"
    by (simp_all add: diamondDT_def diamondNode_def)
  have i: "getIDom (diamondNode 3) = Some entryNode" "getIDom (diamondNode 2) = Some entryNode"
      "getIDom entryNode = None" "getBlock entryNode = 0"
    by (simp_all add: diamondNode_def entryNode_def)
  have s: "lastStoreSrc ?F diamondLastStores 3 = Inr None"
      "lastStoreSrc ?F diamondLastStores 2 = Inr (Some (SILArgument 0 1))"
      "lastStoreSrc ?F diamondLastStores 0 = Inr None"
    by code_simp+
  have a: "lastArgument ?F 3 = Inr (SILArgument 3 0)"
    by (simp add: lastArgument_def addBlockArguments_def diamond_def)
  have p: "getPredecessorBlocks diamond 2 \<noteq> []" "getPredecessorBlocks diamond 3 \<noteq> []"
    by code_simp+
  note e = live_in_live_out_values[OF diamondDT_wellFormed, of ?F diamondLastStores "NominalType 0"
      "\<lambda>b. getPredecessorBlocks diamond b = []" "[3]"]
  have o0: "getLiveOutValue ?F diamondDT diamondLastStores (NominalType 0) [3] 0
              = Inr (SILUndef (NominalType 0))"
    using e[of 0] n i s by simp
  show ?thesis
    using e[of 3] e[of 2] n i s a p o0 by simp
qed

text \<open>
  Claim C3, as stated, fails: at a \<^verbatim>\<open>destroy_value\<close> of the running value the scan of
  \<^verbatim>\<open>promoteAllocationInBlock\<close> resets \<open>LastStore\<close>, not \<open>RunningVal\<close>. In block 1 of the
  function below the value stored by instruction 4 is destroyed by instruction 5; the
  load 6 that follows is still replaced by that value, so its user 7 reads it.
\<close>

theorem destroyed_value_reaches_later_load_counterexample:
  "(case promoteAllocationInBlock exampleExternals 10 1 (NominalType 0) 1 destroyThenLoad of
      Inl e \<Rightarrow> False
    | Inr (F, LastStore) \<Rightarrow>
        LastStore = None \<and>
        getInsts F 1 =
          [SILInstruction 4 (StoreInst (SILArgument 0 1) (InstResult 1) StoreInit),
           SILInstruction 5 (DestroyValueInst (SILArgument 0 1)),
           SILInstruction 7 (OtherInst [SILArgument 0 1]),
           SILInstruction 8 (DeallocStackInst (InstResult 1)),
           SILInstruction 9 (TermInst [])])"
  by code_simp

text \<open>
  Claim C3, amended. When the pruning scan meets a \<^verbatim>\<open>destroy_value\<close> whose operand is
  identical to the running value, it forgets the retained store (\<open>LastStore\<close> becomes
  null) and goes on with the running value and the function unchanged, so a later load
  in the block still resolves to that value; a \<^verbatim>\<open>destroy_value\<close> of any other operand
  changes nothing. The scan of \<^verbatim>\<open>removeSingleBlockAllocation\<close> passes every
  \<^verbatim>\<open>destroy_value\<close> by.
\<close>

theorem destroy_value_resets_last_store:
  assumes "findInst F BBI = Some (BB, Inst)" and "kind Inst = DestroyValueInst op"
  shows "promoteAllocationInBlock_loop X fuel ASI ty (BBI # rest) (F, RunningVal, LastStore) =
           promoteAllocationInBlock_loop X fuel ASI ty rest
             (F, RunningVal, if Some op = RunningVal then None else LastStore)
       \<and> removeSingleBlockAllocation_loop X fuel ASI ty (BBI # rest) (F, RunningVal) =
           removeSingleBlockAllocation_loop X fuel ASI ty rest (F, RunningVal)"
proof -
  have l: "isLoadFromStack fuel F Inst ASI = Inr False"
    using assms(2) by (simp add: isLoadFromStack_def)
  show ?thesis
    using assms l
    by (simp add: promoteAllocationInBlock_inst_def removeSingleBlockAllocation_inst_def)
qed

theorem destroy_value_resets_last_store_witness:
  "promoteAllocationInBlock_loop exampleExternals 10 1 (NominalType 0) [5]
      (destroyThenLoad, Some (SILArgument 0 1), Some 4)
     = Inr ((destroyThenLoad, Some (SILArgument 0 1), None), [])
   \<and> removeSingleBlockAllocation_loop exampleExternals 10 1 (NominalType 0) [5]
      (destroyThenLoad, Some (SILArgument 0 1))
     = Inr ((destroyThenLoad, Some (SILArgument 0 1)), [])"
proof -
  have f: "findInst destroyThenLoad 5 = Some (1, SILInstruction 5 (DestroyValueInst (SILArgument 0 1)))"
    by code_simp
  from destroy_value_resets_last_store[OF f, of "SILArgument 0 1" exampleExternals 10 1
      "NominalType 0" "[]" "Some (SILArgument 0 1)" "Some 4"]
  show ?thesis by simp
qed

text \<open>
  Claim C4. A use of the slot that reaches, through address projections of which at
  least one is a \<^verbatim>\<open>struct_element_addr\<close> or \<^verbatim>\<open>tuple_element_addr\<close>, a load that takes its
  operand makes \<^verbatim>\<open>isCaptured\<close> answer true; \<^verbatim>\<open>promoteSingleAllocation\<close> then returns
  false and leaves the function as it is.
\<close>

theorem take_through_field_is_captured:
  assumes "takesThroughField_uses False uses"
  shows "isCaptured loadable ASI asiParent uses inSingleBlock = (True, inSingleBlock)
       \<and> (getUseTrees fuel F (InstResult ASI) = Inr uses \<longrightarrow>
            promoteSingleAllocation X fuel DT DomTreeLevels asiParent ASI ty F = Inr (F, False))"
  using takesThroughField_captured[OF assms]
  by (simp add: promoteSingleAllocation_def)

theorem take_through_field_is_captured_witness:
  "getUseTrees 10 takeThroughField (InstResult 1) = Inr takeThroughFieldUses
   \<and> isCaptured True 1 0 takeThroughFieldUses False = (True, False)
   \<and> promoteSingleAllocation exampleExternals 10 oneBlockDT (\<lambda>_. 0) 0 1 (NominalType 0)
        takeThroughField = Inr (takeThroughField, False)"
proof -
  have t: "takesThroughField_uses False takeThroughFieldUses"
    by (simp add: takeThroughFieldUses_def)
  from take_through_field_is_captured[OF t, of True 1 0 False 10 takeThroughField
      exampleExternals oneBlockDT "\<lambda>_. 0" "NominalType 0"] takeThroughField_uses
  show ?thesis by simp
qed




text \<open>
  Claim C6, as stated, fails for the loads. In block 1 of \<open>copyLoads\<close> the scan meets two
  \<^verbatim>\<open>load [copy]\<close> of the slot while it knows no running value; it leaves both in place
  for \<^verbatim>\<open>fixBranchesAndUses\<close>. In block 1 of \<open>loadsAfterDealloc\<close> the scan stops at the
  deallocation, and the two loads behind it stay.
\<close>

theorem pruned_block_counterexample:
  "(case promoteAllocationInBlock exampleExternals 10 1 (NominalType 0) 1 copyLoads of
      Inl e \<Rightarrow> False
    | Inr (F, LastStore) \<Rightarrow>
        filter (\<lambda>I. loadsDirectly 1 (kind I)) (getInsts F 1) =
          [SILInstruction 4 (LoadInst (InstResult 1) LoadCopy),
           SILInstruction 5 (LoadInst (InstResult 1) LoadCopy)])
   \<and> (case promoteAllocationInBlock exampleExternals 10 1 (NominalType 0) 1 loadsAfterDealloc of
      Inl e \<Rightarrow> False
    | Inr (F, LastStore) \<Rightarrow>
        filter (\<lambda>I. loadsDirectly 1 (kind I)) (getInsts F 1) =
          [SILInstruction 5 (LoadInst (InstResult 1) LoadTrivial),
           SILInstruction 6 (LoadInst (InstResult 1) LoadTrivial)])"
  by code_simp

text \<open>
  Claim C6, amended. When the pruning scan meets a store to the slot while an earlier
  store is retained as \<open>LastStore\<close>, it deletes the earlier store and retains the new
  one. After the scan of a block in which no store to the slot and no load from it
  follows the deallocation where the scan stops: the block holds at most one store to
  the slot, which is the store the scan returns, if the scan met no \<^verbatim>\<open>destroy_value\<close>
  of the running value while a store was retained; and the block holds at most one load
  directly from the slot, if the scan met no \<^verbatim>\<open>load [copy]\<close> of the slot while it
  knew no running value.
\<close>

theorem last_store_survives_pruning:
  "(kind Inst = StoreInst src (InstResult ASI) q \<longrightarrow>
    promoteAllocationInBlock_inst X fuel ASI ty Inst (F0, RV0, Some L) = Inr ((F1, RV1, LS1), brk) \<longrightarrow>
      LS1 = Some (instId Inst) \<and> (\<forall>b. \<forall>I\<in>set (getInsts F1 b). instId I \<noteq> L))
   \<and> (scannableBlock ASI BB F \<longrightarrow> destroyLeavesSlot X ASI \<longrightarrow>
      promoteAllocationInBlock_loop X fuel ASI ty (map instId (getInsts F BB)) (F, None, None)
           = Inr ((F', RunningVal, LastStore), unvisited) \<longrightarrow>
      (\<forall>I\<in>set (getInsts F BB). instId I \<in> set unvisited \<longrightarrow>
           \<not> storesTo ASI (kind I) \<and> \<not> loadsDirectly ASI (kind I)) \<longrightarrow>
        (\<not> scanMeets forgetsLastStore X fuel ASI ty (map instId (getInsts F BB)) (F, None, None) \<longrightarrow>
           length (filter (\<lambda>I. storesTo ASI (kind I)) (getInsts F' BB)) \<le> 1
           \<and> (\<forall>I\<in>set (getInsts F' BB). storesTo ASI (kind I) \<longrightarrow> LastStore = Some (instId I)))
      \<and> (\<not> scanMeets (leavesLoadCopy ASI) X fuel ASI ty (map instId (getInsts F BB)) (F, None, None) \<longrightarrow>
           length (filter (\<lambda>I. loadsDirectly ASI (kind I)) (getInsts F' BB)) \<le> 1))"
  using store_deletes_last_store[of Inst src ASI q X fuel ty F0 RV0 L F1 RV1 LS1 brk]
    pruned_block_counts[of ASI BB F X fuel ty F' RunningVal LastStore unvisited]
  by blast

theorem last_store_survives_pruning_witness:
  "(\<exists>F1. promoteAllocationInBlock_inst exampleExternals 10 1 (NominalType 0)
           (SILInstruction 10 (StoreInst (SILArgument 0 0) (InstResult 1) StoreInit))
           (storeLoadTwice, Some (SILArgument 0 1), Some 4)
         = Inr ((F1, Some (SILArgument 0 0), Some 10), False)
       \<and> 4 \<notin> instId ` set (getInsts F1 1))
   \<and> scannableBlock 1 1 storeLoadTwice \<and> destroyLeavesSlot exampleExternals 1
   \<and> \<not> scanMeets forgetsLastStore exampleExternals 10 1 (NominalType 0)
         (map instId (getInsts storeLoadTwice 1)) (storeLoadTwice, None, None)
   \<and> \<not> scanMeets (leavesLoadCopy 1) exampleExternals 10 1 (NominalType 0)
         (map instId (getInsts storeLoadTwice 1)) (storeLoadTwice, None, None)
   \<and> (\<exists>F' RunningVal.
        promoteAllocationInBlock_loop exampleExternals 10 1 (NominalType 0)
           (map instId (getInsts storeLoadTwice 1)) (storeLoadTwice, None, None)
         = Inr ((F', RunningVal, Some 10), [14])
       \<and> length (filter (\<lambda>I. storesTo 1 (kind I)) (getInsts F' 1)) \<le> 1
       \<and> length (filter (\<lambda>I. loadsDirectly 1 (kind I)) (getInsts F' 1)) \<le> 1)"
proof -
  have "case promoteAllocationInBlock_inst exampleExternals 10 1 (NominalType 0)
           (SILInstruction 10 (StoreInst (SILArgument 0 0) (InstResult 1) StoreInit))
           (storeLoadTwice, Some (SILArgument 0 1), Some 4) of
          Inl e \<Rightarrow> False
        | Inr ((F1, RV1, LS1), brk) \<Rightarrow> RV1 = Some (SILArgument 0 0) \<and> LS1 = Some 10 \<and> \<not> brk"
    by code_simp
  then obtain F1 where s: "promoteAllocationInBlock_inst exampleExternals 10 1 (NominalType 0)
           (SILInstruction 10 (StoreInst (SILArgument 0 0) (InstResult 1) StoreInit))
           (storeLoadTwice, Some (SILArgument 0 1), Some 4)
         = Inr ((F1, Some (SILArgument 0 0), Some 10), False)"
    by (auto split: sum.splits prod.splits)
  have "case promoteAllocationInBlock_loop exampleExternals 10 1 (NominalType 0)
           (map instId (getInsts storeLoadTwice 1)) (storeLoadTwice, None, None) of
          Inl e \<Rightarrow> False
        | Inr ((F', RV, LS), un) \<Rightarrow> LS = Some 10 \<and> un = [14]"
    by code_simp
  then obtain F' RV where l: "promoteAllocationInBlock_loop exampleExternals 10 1 (NominalType 0)
           (map instId (getInsts storeLoadTwice 1)) (storeLoadTwice, None, None)
         = Inr ((F', RV, Some 10), [14])"
    by (auto split: sum.splits prod.splits)
  have p: "scannableBlock 1 1 storeLoadTwice"
    unfolding scannableBlock_def wfIds_def storeLoadTwice_def twoBlocks_def
    by (auto simp: storesSlotAddress_def isAllocStackKind_def split: if_splits)
  have d: "destroyLeavesSlot exampleExternals 1"
    by (auto simp: destroyLeavesSlot_def exampleExternals_def storesTo_def loadsDirectly_def
           split: option.splits)
  have t: "\<forall>I\<in>set (getInsts storeLoadTwice 1). instId I \<in> set [14] \<longrightarrow>
             \<not> storesTo 1 (kind I) \<and> \<not> loadsDirectly 1 (kind I)"
    by (auto simp: storeLoadTwice_def twoBlocks_def storesTo_def loadsDirectly_def)
  have nf: "\<not> scanMeets forgetsLastStore exampleExternals 10 1 (NominalType 0)
         (map instId (getInsts storeLoadTwice 1)) (storeLoadTwice, None, None)"
    by code_simp
  have nl: "\<not> scanMeets (leavesLoadCopy 1) exampleExternals 10 1 (NominalType 0)
         (map instId (getInsts storeLoadTwice 1)) (storeLoadTwice, None, None)"
    by code_simp
  from last_store_survives_pruning[of
      "SILInstruction 10 (StoreInst (SILArgument 0 0) (InstResult 1) StoreInit)"
      "SILArgument 0 0" 1 StoreInit exampleExternals 10 "NominalType 0" storeLoadTwice
      "Some (SILArgument 0 1)" 4 F1 "Some (SILArgument 0 0)" "Some 10" False
      1 storeLoadTwice F' RV "Some 10" "[14]"]
    s l p d t nf nl
  show ?thesis by (simp add: image_iff)
qed

text \<open>
  Claim C7, as stated, fails for the scan of \<^verbatim>\<open>promoteAllocationInBlock\<close>: it stops at
  the deallocation but does not delete it. After the scan of block 3 of the diamond the
  \<^verbatim>\<open>dealloc_stack\<close> 9 is still there.
\<close>

theorem pruning_keeps_dealloc_counterexample:
  "(case promoteAllocationInBlock exampleExternals 10 1 (NominalType 0) 3 diamond of
      Inl e \<Rightarrow> False
    | Inr (F, LastStore) \<Rightarrow>
        getInsts F 3 =
          [SILInstruction 7 (LoadInst (InstResult 1) LoadTake),
           SILInstruction 8 (OtherInst [InstResult 7]),
           SILInstruction 9 (DeallocStackInst (InstResult 1)),
           SILInstruction 10 (TermInst [])])"
  by code_simp

text \<open>
  Claim C7, amended. When the scan of \<^verbatim>\<open>removeSingleBlockAllocation\<close> meets the slot's
  deallocation, it deletes it and stops: the instructions after it are left unvisited.
  When the pruning scan of \<^verbatim>\<open>promoteAllocationInBlock\<close> meets it, it stops as well and
  leaves the deallocation, the function and its state as they are.
\<close>

theorem dealloc_stops_scan:
  assumes "findInst F BBI = Some (BB, Inst)" and "kind Inst = DeallocStackInst (InstResult ASI)"
  shows "removeSingleBlockAllocation_loop X fuel ASI ty (BBI # rest) (F, RunningVal) =
           Inr ((eraseFromParent BBI F, RunningVal), rest)
       \<and> promoteAllocationInBlock_loop X fuel ASI ty (BBI # rest) (F, RunningVal, LastStore) =
           Inr ((F, RunningVal, LastStore), rest)"
proof -
  have l: "isLoadFromStack fuel F Inst ASI = Inr False"
    using assms(2) by (simp add: isLoadFromStack_def)
  have i: "instId Inst = BBI" using assms(1) by (rule findInst_instId)
  show ?thesis
    using assms l i
    by (simp add: promoteAllocationInBlock_inst_def removeSingleBlockAllocation_inst_def)
qed

theorem dealloc_stops_scan_witness:
  "removeSingleBlockAllocation_loop exampleExternals 10 1 (NominalType 0) [3, 4, 5]
      (useAfterDealloc, Some (SILArgument 0 0))
     = Inr ((eraseFromParent 3 useAfterDealloc, Some (SILArgument 0 0)), [4, 5])
   \<and> promoteAllocationInBlock_loop exampleExternals 10 1 (NominalType 0) [3, 4, 5]
      (useAfterDealloc, Some (SILArgument 0 0), Some 2)
     = Inr ((useAfterDealloc, Some (SILArgument 0 0), Some 2), [4, 5])"
proof -
  have f: "findInst useAfterDealloc 3 = Some (0, SILInstruction 3 (DeallocStackInst (InstResult 1)))"
    by code_simp
  from dealloc_stops_scan[OF f, of 1 exampleExternals 10 "NominalType 0" "[4, 5]"
      "Some (SILArgument 0 0)" "Some 2"]
  show ?thesis by simp
qed

text \<open>
  Claim C8, as stated, fails when the uses share a block that is not the block of the
  allocation: the slot below is allocated in block 0, all its uses lie in block 1, it is
  not captured, and \<^verbatim>\<open>inSingleBlock\<close> is false.
\<close>

theorem single_block_counterexample:
  "map getParent (concat (map visitedUses usesInOtherBlock)) = [1, 1, 1, 1]
   \<and> isCaptured True 1 0 usesInOtherBlock False = (False, False)"
  by code_simp

text \<open>
  Claim C8, amended. \<^verbatim>\<open>isCaptured\<close> either answers false, and then \<^verbatim>\<open>inSingleBlock\<close> is
  true exactly when every use it visits (the uses of the slot and, beneath address
  projections, theirs) lies in the block of the allocation itself; or it answers true
  and leaves \<^verbatim>\<open>inSingleBlock\<close> as the caller set it.
\<close>

theorem single_block_is_allocation_block:
  "isCaptured loadable ASI asiParent uses inSingleBlock =
      (False, list_all (\<lambda>v. getParent v = asiParent) (concat (map visitedUses uses)))
   \<or> isCaptured loadable ASI asiParent uses inSingleBlock = (True, inSingleBlock)"
proof (cases "isCaptured_loop loadable ASI uses (Some asiParent)")
  case (Pair c sb')
  show ?thesis
  proof (cases c)
    case True
    with Pair show ?thesis by (simp add: isCaptured_def)
  next
    case False
    with Pair have "isCaptured_loop loadable ASI uses (Some asiParent) = (False, sb')" by simp
    from singleBlock_loop[OF this] Pair False show ?thesis
      by (auto simp: isCaptured_def list_all_iff)
  qed
qed

theorem single_block_is_allocation_block_witness:
  "isCaptured True 1 0 usesInOwnBlock False = (False, True)
   \<and> list_all (\<lambda>v. getParent v = 0) (concat (map visitedUses usesInOwnBlock))"
proof -
  have c: "isCaptured True 1 0 usesInOwnBlock False \<noteq> (True, False)" by code_simp
  have l: "list_all (\<lambda>v. getParent v = 0) (concat (map visitedUses usesInOwnBlock))"
    by (simp add: usesInOwnBlock_def)
  from single_block_is_allocation_block[of True 1 0 usesInOwnBlock False] c l
  show ?thesis by simp
qed

text \<open>
  Claim C9. When the slot is not captured, not write-only and confined to one block,
  and the single-block elimination returns with the allocation still in use,
  \<^verbatim>\<open>promoteSingleAllocation\<close> does not fail: it returns true, and the function it leaves
  has a new \<^verbatim>\<open>dealloc_stack\<close> of the slot right after the allocation.
\<close>

theorem leftover_uses_reinsert_dealloc:
  assumes "getUseTrees fuel F (InstResult alloc) = Inr uses"
    and "isCaptured (isLoadable X ty) alloc BB uses False = (False, True)"
    and "\<not> isWriteOnlyAllocation F uses"
    and "removeSingleBlockAllocation X fuel alloc ty BB F = Inr F'"
    and "\<not> use_empty F' (InstResult alloc)"
  shows "\<exists>F''. promoteSingleAllocation X fuel DT DomTreeLevels BB alloc ty F = Inr (F'', True)
       \<and> (\<forall>pre A post. getInsts F' BB = pre @ A # post \<and> instId A = alloc
                          \<and> alloc \<notin> instId ` set pre \<longrightarrow>
            getInsts F'' BB =
              pre @ A # SILInstruction (nextId F') (DeallocStackInst (InstResult alloc)) # post)"
  using assms
  by (auto simp: promoteSingleAllocation_def createAfter_def insertAfter_split)

theorem leftover_uses_reinsert_dealloc_witness:
  "\<exists>F''. promoteSingleAllocation exampleExternals 10 oneBlockDT (\<lambda>_. 0) 0 1 (NominalType 0)
            useAfterDealloc = Inr (F'', True)
       \<and> getInsts F'' 0 =
           [SILInstruction 1 (AllocStackInst (NominalType 0)),
            SILInstruction 6 (DeallocStackInst (InstResult 1)),
            SILInstruction 4 (LoadInst (InstResult 1) LoadTrivial),
            SILInstruction 5 (TermInst [])]"
proof -
  have "(case getUseTrees 10 useAfterDealloc (InstResult 1) of
           Inl e \<Rightarrow> False
         | Inr uses \<Rightarrow>
             isCaptured (isLoadable exampleExternals (NominalType 0)) 1 0 uses False = (False, True)
             \<and> \<not> isWriteOnlyAllocation useAfterDealloc uses)"
    by code_simp
  then obtain uses where u: "getUseTrees 10 useAfterDealloc (InstResult 1) = Inr uses"
    and c: "isCaptured (isLoadable exampleExternals (NominalType 0)) 1 0 uses False = (False, True)"
    and w: "\<not> isWriteOnlyAllocation useAfterDealloc uses"
    by (auto split: sum.splits)
  have "(case removeSingleBlockAllocation exampleExternals 10 1 (NominalType 0) 0 useAfterDealloc of
           Inl e \<Rightarrow> False
         | Inr F' \<Rightarrow>
             \<not> use_empty F' (InstResult 1) \<and> nextId F' = 6 \<and>
             getInsts F' 0 =
               [] @ SILInstruction 1 (AllocStackInst (NominalType 0)) #
               [SILInstruction 4 (LoadInst (InstResult 1) LoadTrivial),
                SILInstruction 5 (TermInst [])])"
    by code_simp
  then obtain F' where
    r: "removeSingleBlockAllocation exampleExternals 10 1 (NominalType 0) 0 useAfterDealloc = Inr F'"
    and e: "\<not> use_empty F' (InstResult 1)" and n: "nextId F' = 6"
    and g: "getInsts F' 0 =
               [] @ SILInstruction 1 (AllocStackInst (NominalType 0)) #
               [SILInstruction 4 (LoadInst (InstResult 1) LoadTrivial),
                SILInstruction 5 (TermInst [])]"
    by (auto split: sum.splits)
  from leftover_uses_reinsert_dealloc[OF u c w r e, of oneBlockDT "\<lambda>_. 0"] obtain F'' where
    p: "promoteSingleAllocation exampleExternals 10 oneBlockDT (\<lambda>_. 0) 0 1 (NominalType 0)
          useAfterDealloc = Inr (F'', True)"
    and a: "\<forall>pre A post. getInsts F' 0 = pre @ A # post \<and> instId A = 1 \<and> 1 \<notin> instId ` set pre \<longrightarrow>
            getInsts F'' 0 = pre @ A # SILInstruction (nextId F') (DeallocStackInst (InstResult 1)) # post"
    by blast
  from a g have "getInsts F'' 0 =
      [] @ SILInstruction 1 (AllocStackInst (NominalType 0)) #
        SILInstruction (nextId F') (DeallocStackInst (InstResult 1)) #
        [SILInstruction 4 (LoadInst (InstResult 1) LoadTrivial), SILInstruction 5 (TermInst [])]"
    by (metis SILInstruction.sel(1) empty_iff image_is_empty set_empty)
  with p n show ?thesis by auto
qed

text \<open>
  Claim C10. In the pruning scan a load directly from the slot that is met while the
  running value is unknown becomes the running value unless it is a \<^verbatim>\<open>load [copy]\<close>,
  which leaves the function and the state as they are; a \<^verbatim>\<open>load [copy]\<close> never changes
  the running value, whatever it was; and \<^verbatim>\<open>replaceLoad\<close> on a \<^verbatim>\<open>load [copy]\<close> directly
  from the slot puts a \<^verbatim>\<open>copy_value\<close> of the resolved value in front of the load, replaces
  the uses of the load by the copy and erases the load.
\<close>

theorem load_copy_not_running_value:
  assumes "0 < fuel" and "findInst F LI = Some (BB, Inst)"
    and "kind Inst = LoadInst (InstResult ASI) q"
  shows "promoteAllocationInBlock_inst X fuel ASI ty Inst (F, None, LastStore) =
           Inr ((F, if q = LoadCopy then None else Some (InstResult (instId Inst)), LastStore), False)
       \<and> (q = LoadCopy \<longrightarrow>
            (case promoteAllocationInBlock_inst X fuel ASI ty Inst (F, RunningVal, LastStore) of
               Inl e \<Rightarrow> True
             | Inr ((F', RunningVal', LastStore'), stop) \<Rightarrow> RunningVal' = RunningVal))
       \<and> (q = LoadCopy \<longrightarrow>
            replaceLoad X fuel LI Def ASI F =
              Inr (eraseFromParent LI
                    (replaceAllUsesWith (InstResult LI) (InstResult (nextId F))
                      (fst (createBefore LI (CopyValueInst Def) F)))))"
proof -
  have l: "isLoadFromStack fuel F Inst ASI = Inr True"
    using assms(1,3) by (rule direct_load_from_stack)
  have 1: "promoteAllocationInBlock_inst X fuel ASI ty Inst (F, None, LastStore) =
           Inr ((F, if q = LoadCopy then None else Some (InstResult (instId Inst)), LastStore), False)"
    using l assms(3) by (simp add: promoteAllocationInBlock_inst_def)
  have 2: "(case promoteAllocationInBlock_inst X fuel ASI ty Inst (F, RunningVal, LastStore) of
               Inl e \<Rightarrow> True
             | Inr ((F', RunningVal', LastStore'), stop) \<Rightarrow> RunningVal' = RunningVal)"
    if "q = LoadCopy"
    using l assms(3) that
    by (cases RunningVal) (auto simp: promoteAllocationInBlock_inst_def split: sum.splits)
  from 1 2 replaceLoad_direct[OF assms] show ?thesis by simp
qed

theorem load_copy_not_running_value_witness:
  "promoteAllocationInBlock_inst exampleExternals 10 1 (NominalType 0)
      (SILInstruction 4 (LoadInst (InstResult 1) LoadCopy)) (copyLoads, None, None)
     = Inr ((copyLoads, None, None), False)
   \<and> (\<exists>F'. replaceLoad exampleExternals 10 4 (SILArgument 0 0) 1 copyLoads = Inr F'
        \<and> getInsts F' 1 =
            [SILInstruction 20 (CopyValueInst (SILArgument 0 0)),
             SILInstruction 5 (LoadInst (InstResult 1) LoadCopy),
             SILInstruction 6 (OtherInst [InstResult 20, InstResult 5]),
             SILInstruction 8 (DeallocStackInst (InstResult 1)),
             SILInstruction 9 (TermInst [])])"
proof -
  have f: "findInst copyLoads 4 = Some (1, SILInstruction 4 (LoadInst (InstResult 1) LoadCopy))"
    by code_simp
  have g: "getInsts (eraseFromParent 4
             (replaceAllUsesWith (InstResult 4) (InstResult (nextId copyLoads))
               (fst (createBefore 4 (CopyValueInst (SILArgument 0 0)) copyLoads)))) 1 =
            [SILInstruction 20 (CopyValueInst (SILArgument 0 0)),
             SILInstruction 5 (LoadInst (InstResult 1) LoadCopy),
             SILInstruction 6 (OtherInst [InstResult 20, InstResult 5]),
             SILInstruction 8 (DeallocStackInst (InstResult 1)),
             SILInstruction 9 (TermInst [])]"
    by code_simp
  from load_copy_not_running_value[OF _ f, of 10 1 LoadCopy exampleExternals "NominalType 0"
      None None "SILArgument 0 0"] g
  show ?thesis by simp
qed

end
